theory Spec2Isabelle
  imports Main "HOL-Library.Char_ord" "HOL-Library.List_Lexorder" "HOL-Library.Multiset"
begin

section \<open>Python values used by current\_load.py\<close>

text \<open>
  The module is Python 2 code (\<^verbatim>\<open>output.split('\n')\<close> on the bytes of a pipe,
  \<^verbatim>\<open>(klo + khi) / 2\<close> used as a list index). Strings are byte strings, compared
  bytewise; \<^typ>\<open>string\<close> with the lexicographic order of \<open>List_Lexorder\<close> over the
  code-point order of \<open>Char_ord\<close> is that order. Integers are unbounded: \<^typ>\<open>int\<close>.
  Every exception the code can raise is a value of \<open>error\<close>.
\<close>

datatype error =
    CurrentLoadException string
  | AttributeError
  | IndexError
  | ValueError
  | TypeError
  | IOError
  | OSError

text \<open>\<^verbatim>\<open>xs[k]\<close>: a negative index counts from the end, anything else out of range raises.\<close>

definition py_index :: "'a list \<Rightarrow> int \<Rightarrow> error + 'a" where
  "py_index xs k =
     (if 0 \<le> k \<and> k < int (length xs) then Inr (xs ! nat k)
      else if - int (length xs) \<le> k \<and> k < 0 then Inr (xs ! nat (int (length xs) + k))
      else Inl IndexError)"

text \<open>\<^verbatim>\<open>s[-8:]\<close> and \<^verbatim>\<open>s[-8:-1]\<close>.\<close>

definition last8 :: "string \<Rightarrow> string" where
  "last8 s = drop (length s - 8) s"

definition lrdate_of :: "string \<Rightarrow> string" where
  "lrdate_of s = butlast (drop (length s - 8) s)"

text \<open>Whitespace as \<^verbatim>\<open>str.split()\<close> and \<^verbatim>\<open>str.rstrip()\<close> see it.\<close>

definition is_space :: "char \<Rightarrow> bool" where
  "is_space c = (c = CHR '' '' \<or> c = CHR 0x09 \<or> c = CHR 0x0A \<or> c = CHR 0x0B
                 \<or> c = CHR 0x0C \<or> c = CHR 0x0D)"

definition is_digit :: "char \<Rightarrow> bool" where
  "is_digit c = (CHR ''0'' \<le> c \<and> c \<le> CHR ''9'')"

definition is_upper :: "char \<Rightarrow> bool" where
  "is_upper c = (CHR ''A'' \<le> c \<and> c \<le> CHR ''Z'')"

fun split_aux :: "string \<Rightarrow> string \<Rightarrow> string list" where
  "split_aux cur [] = (if cur = [] then [] else [rev cur])"
| "split_aux cur (c # cs) =
     (if is_space c then (if cur = [] then split_aux [] cs else rev cur # split_aux [] cs)
      else split_aux (c # cur) cs)"

definition py_split :: "string \<Rightarrow> string list" where
  "py_split s = split_aux [] s"

definition py_rstrip :: "string \<Rightarrow> string" where
  "py_rstrip s = rev (dropWhile is_space (rev s))"

text \<open>\<^verbatim>\<open>s.split('\n')\<close>: the pieces between newlines, the empty ones included.\<close>

fun split_nl_aux :: "string \<Rightarrow> string \<Rightarrow> string list" where
  "split_nl_aux cur [] = [rev cur]"
| "split_nl_aux cur (c # cs) =
     (if c = CHR 0x0A then rev cur # split_nl_aux [] cs else split_nl_aux (c # cur) cs)"

definition split_nl :: "string \<Rightarrow> string list" where
  "split_nl s = split_nl_aux [] s"

text \<open>\<^verbatim>\<open>int(tok)\<close> on a token without whitespace: an optional sign and decimal digits.\<close>

definition digit_val :: "char \<Rightarrow> int" where
  "digit_val c = int (of_char c) - 48"

definition py_int :: "string \<Rightarrow> error + int" where
  "py_int tok =
     (let neg = (tok \<noteq> [] \<and> hd tok = CHR ''-'');
          body = (if tok \<noteq> [] \<and> (hd tok = CHR ''-'' \<or> hd tok = CHR ''+'') then tl tok else tok)
      in if body \<noteq> [] \<and> list_all is_digit body
         then Inr ((if neg then - 1 else 1) * foldl (\<lambda>acc c. 10 * acc + digit_val c) 0 body)
         else Inl ValueError)"

section \<open>Cyclic counter difference\<close>

definition vcduWrap :: int where
  "vcduWrap = 2 ^ 24"

definition deltaVCDU :: "int \<Rightarrow> int \<Rightarrow> int" where
  "deltaVCDU a b =
     (let d = b - a
      in if d < 0 then (if \<bar>d\<bar> > \<bar>d + vcduWrap\<bar> then d + vcduWrap else d)
         else if d > \<bar>d - vcduWrap\<bar> then d - vcduWrap else d)"

section \<open>Patterns of the class\<close>

text \<open>
  \<^verbatim>\<open>gmtre = (\d{4}:\d{3}:\d{2}:\d{2}:\d{2}\.\d{3})\<close>, used with \<^verbatim>\<open>match\<close>: the
  pattern is tried at the start of the line and group 1 is the 21 characters matched.
\<close>

definition gmt_shape :: "(char \<Rightarrow> bool) list" where
  "gmt_shape =
     (let d = is_digit; c = (\<lambda>x. x = CHR '':''); p = (\<lambda>x. x = CHR ''.'')
      in [d, d, d, d, c, d, d, d, c, d, d, c, d, d, c, d, d, p, d, d, d])"

definition gmtre_match :: "string \<Rightarrow> string option" where
  "gmtre_match t =
     (if 21 \<le> length t \<and> list_all2 (\<lambda>p x. p x) gmt_shape (take 21 t)
      then Some (take 21 t) else None)"

text \<open>
  \<^verbatim>\<open>lrdre = (.*/\d{4}:\d{3}:([A-N])-[A-Z]{3}\d{4}\2)\<close>, used with \<^verbatim>\<open>match\<close>. After
  the greedy \<^verbatim>\<open>.*\<close> (any characters but a newline) the pattern has 20 characters of
  fixed shape, the last one repeating the revision letter. The match found is the one
  with the longest \<^verbatim>\<open>.*\<close>; group 1 ends where the fixed part ends, so what follows it
  in the line is dropped.
\<close>

definition is_rev :: "char \<Rightarrow> bool" where
  "is_rev c = (CHR ''A'' \<le> c \<and> c \<le> CHR ''N'')"

definition lrd_shape :: "(char \<Rightarrow> bool) list" where
  "lrd_shape =
     (let d = is_digit; u = is_upper; c = (\<lambda>x. x = CHR '':'')
      in [(\<lambda>x. x = CHR ''/''), d, d, d, d, c, d, d, d, c, is_rev, (\<lambda>x. x = CHR ''-''),
          u, u, u, d, d, d, d, is_rev])"

definition lrd_tail :: "string \<Rightarrow> bool" where
  "lrd_tail u = (length u = 20 \<and> list_all2 (\<lambda>p x. p x) lrd_shape u \<and> u ! 19 = u ! 10)"

definition lrdre_match :: "string \<Rightarrow> string option" where
  "lrdre_match t =
     (case filter (\<lambda>j. lrd_tail (take 20 (drop j t)) \<and> CHR 0x0A \<notin> set (take j t))
             (rev [0..<length t]) of
        [] \<Rightarrow> None
      | j # _ \<Rightarrow> Some (take (j + 20) t))"

section \<open>The file system and the tracker object\<close>

text \<open>
  What the class reads from outside is a parameter: the result of the \<^verbatim>\<open>find\<close>
  process (return code, standard output, standard error) for a directory and a reference
  file, the modification time of a path, and the lines of a text file (each with its
  line end). Only the order of modification times is used, so they are integers here.
\<close>

record filesys =
  run_find :: "string \<Rightarrow> string \<Rightarrow> int \<times> string \<times> string"
  getmtime :: "string \<Rightarrow> error + int"
  read_lines :: "string \<Rightarrow> error + string list"

text \<open>
  The attributes of a \<^verbatim>\<open>CurrentLoad\<close> object. \<open>nextLoads\<close> is \<open>None\<close> where Python
  has \<^verbatim>\<open>None\<close>. The attributes \<open>nextStart\<close>, \<open>nextFirstTime\<close> and \<open>nextFirstVCDU\<close>
  are only ever assigned by \<^verbatim>\<open>checkForNewLoads\<close>; \<open>None\<close> stands for an attribute that
  was never assigned, whose read raises \<^verbatim>\<open>AttributeError\<close>.
\<close>

record CurrentLoad =
  loadReviewDir :: string
  svrdb :: "string list"
  currentStateIndex :: int
  currentLoads :: string
  nextLoads :: "string option"
  nextStart :: "string option"
  nextFirstTime :: "string option"
  nextFirstVCDU :: "int option"

definition startIndex :: int where
  "startIndex = 40"

text \<open>Truth value of an optional string: \<^verbatim>\<open>None\<close> and the empty string are false.\<close>

definition truthy :: "string option \<Rightarrow> bool" where
  "truthy so = (case so of None \<Rightarrow> False | Some x \<Rightarrow> x \<noteq> [])"

section \<open>Directory scanner: getRecentLoads\<close>

text \<open>
  The dictionary \<^verbatim>\<open>pruned\<close> is an association list in insertion order. Python 2 gives
  no order to \<^verbatim>\<open>pruned.values()\<close>; that order only decides how directories with equal
  modification times follow each other after the stable sort.
\<close>

fun dict_set :: "'k \<Rightarrow> 'v \<Rightarrow> ('k \<times> 'v) list \<Rightarrow> ('k \<times> 'v) list" where
  "dict_set k v [] = [(k, v)]"
| "dict_set k v (p # d) = (if fst p = k then (k, v) # d else p # dict_set k v d)"

fun prune :: "(string \<times> string) list \<Rightarrow> string list \<Rightarrow> (string \<times> string) list" where
  "prune pruned [] = pruned"
| "prune pruned (t # ts) =
     (let lrdate = lrdate_of t
      in prune (case map_of pruned lrdate of
                  None \<Rightarrow> dict_set lrdate t pruned
                | Some u \<Rightarrow> if u < t then dict_set lrdate t pruned else pruned) ts)"

fun mtimes :: "(string \<Rightarrow> error + int) \<Rightarrow> string list \<Rightarrow> error + (int \<times> string) list" where
  "mtimes f [] = Inr []"
| "mtimes f (x # xs) =
     (case f x of
        Inl e \<Rightarrow> Inl e
      | Inr m \<Rightarrow> (case mtimes f xs of Inl e \<Rightarrow> Inl e | Inr r \<Rightarrow> Inr ((m, x) # r)))"

text \<open>\<^verbatim>\<open>sort(key=..., reverse=True)\<close>: descending and stable.\<close>

definition sort_recent :: "(int \<times> string) list \<Rightarrow> string list" where
  "sort_recent kx = map snd (rev (sort_key fst (rev kx)))"

definition getRecentLoads :: "filesys \<Rightarrow> CurrentLoad \<Rightarrow> string \<Rightarrow> error + string list" where
  "getRecentLoads fs self refFile =
     (case run_find fs (loadReviewDir self) refFile of
        (returncode, output, errout) \<Rightarrow>
          if returncode \<noteq> 0 then Inl (CurrentLoadException errout)
          else (let rawlist = split_nl output;
                    dirlist = List.map_filter lrdre_match rawlist;
                    pruned = prune [] dirlist
                in case mtimes (getmtime fs) (map snd pruned) of
                     Inl e \<Rightarrow> Inl e
                   | Inr kx \<Rightarrow> Inr (sort_recent kx)))"

section \<open>Load reader: startTime, firstTimeVCDU, slurpState\<close>

definition startTime :: "filesys \<Rightarrow> string \<Rightarrow> error + string option" where
  "startTime fs loadDir =
     (case read_lines fs (loadDir @ ''/'' @ last8 loadDir @ ''.combined.hrcsel'') of
        Inl e \<Rightarrow> Inl e
      | Inr hrcsel \<Rightarrow>
          Inr (case List.map_filter gmtre_match hrcsel of [] \<Rightarrow> None | g # _ \<Rightarrow> Some g))"

definition firstTimeVCDU :: "filesys \<Rightarrow> string \<Rightarrow> error + (string \<times> int) option" where
  "firstTimeVCDU fs loadDir =
     (case read_lines fs (loadDir @ ''/'' @ last8 loadDir @ ''.svrdb'') of
        Inl e \<Rightarrow> Inl e
      | Inr lns \<Rightarrow>
          (case filter (\<lambda>t. gmtre_match t \<noteq> None) lns of
             [] \<Rightarrow> Inr None
           | t # _ \<Rightarrow>
               (case take 2 (py_split t) of
                  [tt, vv] \<Rightarrow>
                    (case py_int vv of Inl e \<Rightarrow> Inl e | Inr v \<Rightarrow> Inr (Some (tt, v)))
                | _ \<Rightarrow> Inl ValueError)))"

definition slurpState :: "filesys \<Rightarrow> CurrentLoad \<Rightarrow> string \<Rightarrow> error + CurrentLoad" where
  "slurpState fs self dir =
     (case read_lines fs (dir @ ''/'' @ last8 dir @ ''.svrdb'') of
        Inl e \<Rightarrow> Inl e
      | Inr lns \<Rightarrow>
          Inr (self\<lparr>svrdb := map py_rstrip lns, currentStateIndex := startIndex,
                    currentLoads := dir, nextLoads := None\<rparr>))"

section \<open>Lookahead planner: checkForNewLoads\<close>

text \<open>
  \<^verbatim>\<open>firstTime, firstVCDU = self.firstTimeVCDU(nextLoads)\<close> unpacks the result; when
  \<^verbatim>\<open>firstTimeVCDU\<close> returned \<^verbatim>\<open>None\<close> the unpacking raises \<^verbatim>\<open>TypeError\<close>.
  The guard \<^verbatim>\<open>if nextStart and firstVCDU\<close> is a truth test: a counter of 0 is false.
\<close>

definition checkForNewLoads :: "filesys \<Rightarrow> CurrentLoad \<Rightarrow> error + CurrentLoad" where
  "checkForNewLoads fs self =
     (case getRecentLoads fs self
             (if truthy (nextLoads self) then the (nextLoads self) else currentLoads self) of
        Inl e \<Rightarrow> Inl e
      | Inr dirlist \<Rightarrow>
          (case dirlist of
             [] \<Rightarrow> Inr self
           | nextLoads' # _ \<Rightarrow>
               (case startTime fs nextLoads' of
                  Inl e \<Rightarrow> Inl e
                | Inr nextStart' \<Rightarrow>
                    (case firstTimeVCDU fs nextLoads' of
                       Inl e \<Rightarrow> Inl e
                     | Inr None \<Rightarrow> Inl TypeError
                     | Inr (Some (firstTime, firstVCDU)) \<Rightarrow>
                         if truthy nextStart' \<and> firstVCDU \<noteq> 0
                         then Inr (self\<lparr>nextLoads := Some nextLoads', nextStart := nextStart',
                                        nextFirstTime := Some firstTime,
                                        nextFirstVCDU := Some firstVCDU\<rparr>)
                         else Inr self))))"

section \<open>Record access\<close>

definition stateTime :: "CurrentLoad \<Rightarrow> int \<Rightarrow> error + string" where
  "stateTime self k =
     (case py_index (svrdb self) k of Inl e \<Rightarrow> Inl e | Inr ln \<Rightarrow> Inr (take 21 ln))"

definition stateVCDU :: "CurrentLoad \<Rightarrow> int \<Rightarrow> error + int" where
  "stateVCDU self k =
     (case py_index (svrdb self) k of
        Inl e \<Rightarrow> Inl e
      | Inr ln \<Rightarrow> (case py_index (py_split ln) 1 of Inl e \<Rightarrow> Inl e | Inr tok \<Rightarrow> py_int tok))"

section \<open>Transition controller: checkAndChangeLoads\<close>

text \<open>
  \<open>switchRequired\<close> is the condition of the \<^verbatim>\<open>if\<close> in \<^verbatim>\<open>checkAndChangeLoads\<close>, with
  Python's evaluation order and short-circuiting:
  \<^verbatim>\<open>(not atVCDU is None and (atVCDU >= self.nextFirstVCDU or atVCDU >= self.stateVCDU(klast))
     or atTime and (atTime >= self.nextFirstTime or atTime >= self.stateTime(klast)))\<close>.
  The comparisons are plain \<^verbatim>\<open>>=\<close> on integers and on strings.
\<close>

definition switchRequired :: "CurrentLoad \<Rightarrow> string option \<Rightarrow> int option \<Rightarrow> error + bool" where
  "switchRequired self atTime atVCDU =
     (let klast = int (length (svrdb self)) - 1;
          timePart =
            (case atTime of
               None \<Rightarrow> Inr False
             | Some T \<Rightarrow>
                 if T = [] then Inr False
                 else (case nextFirstTime self of
                         None \<Rightarrow> Inl AttributeError
                       | Some nft \<Rightarrow>
                           if T \<ge> nft then Inr True
                           else (case stateTime self klast of
                                   Inl e \<Rightarrow> Inl e
                                 | Inr tlast \<Rightarrow> Inr (T \<ge> tlast))))
      in case atVCDU of
           None \<Rightarrow> timePart
         | Some V \<Rightarrow>
             (case nextFirstVCDU self of
                None \<Rightarrow> Inl AttributeError
              | Some nfv \<Rightarrow>
                  if V \<ge> nfv then Inr True
                  else (case stateVCDU self klast of
                          Inl e \<Rightarrow> Inl e
                        | Inr vl \<Rightarrow> if V \<ge> vl then Inr True else timePart)))"

definition noNewLoads :: error where
  "noNewLoads = CurrentLoadException ''No new loads found''"

text \<open>
  Methods that can fail after they changed the object return the outcome together with
  the object as the call leaves it.
\<close>

definition checkAndChangeLoads ::
  "filesys \<Rightarrow> CurrentLoad \<Rightarrow> string option \<Rightarrow> int option \<Rightarrow> (error + unit) \<times> CurrentLoad" where
  "checkAndChangeLoads fs self atTime atVCDU =
     (case switchRequired self atTime atVCDU of
        Inl e \<Rightarrow> (Inl e, self)
      | Inr False \<Rightarrow> (Inr (), self)
      | Inr True \<Rightarrow>
          if truthy (nextLoads self)
          then (case slurpState fs self (the (nextLoads self)) of
                  Inl e \<Rightarrow> (Inl e, self)
                | Inr s1 \<Rightarrow>
                    (case checkForNewLoads fs s1 of
                       Inl e \<Rightarrow> (Inl e, s1)
                     | Inr s2 \<Rightarrow> (Inr (), s2)))
          else (Inl noNewLoads, self))"

section \<open>Query engine\<close>

subsection \<open>The loops\<close>

text \<open>
  Each \<^verbatim>\<open>while\<close> loop is a recursive function from the loop variable at the loop head
  to its value when the loop is left.
\<close>

function fwdTime :: "CurrentLoad \<Rightarrow> string \<Rightarrow> int \<Rightarrow> error + int" where
  "fwdTime self atTime i =
     (if i < int (length (svrdb self))
      then (case stateTime self i of
              Inl e \<Rightarrow> Inl e
            | Inr t \<Rightarrow> if t > atTime then Inr i else fwdTime self atTime (i + 1))
      else Inr i)"
  by pat_completeness auto
termination
  by (relation "measure (\<lambda>(self, atTime, i). nat (int (length (svrdb self)) - i))") auto

function bwdTime :: "CurrentLoad \<Rightarrow> string \<Rightarrow> int \<Rightarrow> error + int" where
  "bwdTime self atTime i =
     (if i > startIndex
      then (case stateTime self i of
              Inl e \<Rightarrow> Inl e
            | Inr t \<Rightarrow> if t \<le> atTime then Inr i else bwdTime self atTime (i - 1))
      else Inr i)"
  by pat_completeness auto
termination
  by (relation "measure (\<lambda>(self, atTime, i). nat (i - startIndex))") auto

function fwdVCDU :: "CurrentLoad \<Rightarrow> int \<Rightarrow> int \<Rightarrow> error + int" where
  "fwdVCDU self atVCDU i =
     (if i < int (length (svrdb self))
      then (case stateVCDU self i of
              Inl e \<Rightarrow> Inl e
            | Inr vcdu \<Rightarrow>
                if deltaVCDU vcdu atVCDU < 0 then Inr i else fwdVCDU self atVCDU (i + 1))
      else Inr i)"
  by pat_completeness auto
termination
  by (relation "measure (\<lambda>(self, atVCDU, i). nat (int (length (svrdb self)) - i))") auto

function bwdVCDU :: "CurrentLoad \<Rightarrow> int \<Rightarrow> int \<Rightarrow> error + int" where
  "bwdVCDU self atVCDU i =
     (if i > startIndex
      then (case stateVCDU self i of
              Inl e \<Rightarrow> Inl e
            | Inr vcdu \<Rightarrow>
                if deltaVCDU vcdu atVCDU \<ge> 0 then Inr i else bwdVCDU self atVCDU (i - 1))
      else Inr i)"
  by pat_completeness auto
termination
  by (relation "measure (\<lambda>(self, atVCDU, i). nat (i - startIndex))") auto

text \<open>The bisection loops; \<^verbatim>\<open>(klo + khi) / 2\<close> is Python 2 integer division.\<close>

function bisectTime :: "CurrentLoad \<Rightarrow> string \<Rightarrow> int \<Rightarrow> int \<Rightarrow> error + int" where
  "bisectTime self atTime klo khi =
     (if khi > klo + 1
      then (case stateTime self ((klo + khi) div 2) of
              Inl e \<Rightarrow> Inl e
            | Inr t \<Rightarrow>
                if atTime \<ge> t then bisectTime self atTime ((klo + khi) div 2) khi
                else bisectTime self atTime klo ((klo + khi) div 2))
      else Inr klo)"
  by pat_completeness auto
termination
  by (relation "measure (\<lambda>(self, atTime, klo, khi). nat (khi - klo))") auto

function bisectVCDU :: "CurrentLoad \<Rightarrow> int \<Rightarrow> int \<Rightarrow> int \<Rightarrow> error + int" where
  "bisectVCDU self atVCDU klo khi =
     (if khi > klo + 1
      then (case stateVCDU self ((klo + khi) div 2) of
              Inl e \<Rightarrow> Inl e
            | Inr vcdu \<Rightarrow>
                if deltaVCDU vcdu atVCDU \<ge> 0 then bisectVCDU self atVCDU ((klo + khi) div 2) khi
                else bisectVCDU self atVCDU klo ((klo + khi) div 2))
      else Inr klo)"
  by pat_completeness auto
termination
  by (relation "measure (\<lambda>(self, atVCDU, klo, khi). nat (khi - klo))") auto

subsection \<open>The index each strategy resolves\<close>

definition linearTime :: "CurrentLoad \<Rightarrow> string \<Rightarrow> error + int" where
  "linearTime self atTime =
     (case stateTime self (currentStateIndex self) of
        Inl e \<Rightarrow> Inl e
      | Inr tc \<Rightarrow>
          if atTime \<ge> tc
          then (case fwdTime self atTime (currentStateIndex self + 1) of
                  Inl e \<Rightarrow> Inl e
                | Inr i \<Rightarrow> Inr (i - 1))
          else bwdTime self atTime (currentStateIndex self - 1))"

definition linearVCDU :: "CurrentLoad \<Rightarrow> int \<Rightarrow> error + int" where
  "linearVCDU self atVCDU =
     (case stateVCDU self (currentStateIndex self) of
        Inl e \<Rightarrow> Inl e
      | Inr vcdu \<Rightarrow>
          if deltaVCDU vcdu atVCDU \<ge> 0
          then (case fwdVCDU self atVCDU (currentStateIndex self + 1) of
                  Inl e \<Rightarrow> Inl e
                | Inr i \<Rightarrow> Inr (i - 1))
          else bwdVCDU self atVCDU (currentStateIndex self - 1))"

definition binaryTime :: "CurrentLoad \<Rightarrow> string \<Rightarrow> error + int" where
  "binaryTime self atTime = bisectTime self atTime startIndex (int (length (svrdb self)))"

definition binaryVCDU :: "CurrentLoad \<Rightarrow> int \<Rightarrow> error + int" where
  "binaryVCDU self atVCDU = bisectVCDU self atVCDU startIndex (int (length (svrdb self)))"

subsection \<open>The four queries\<close>

text \<open>
  \<^verbatim>\<open>self.currentStateIndex = i; return self.svrdb[self.currentStateIndex]\<close>: the cursor
  is stored before the record is read.
\<close>

definition storeAndReturn :: "CurrentLoad \<Rightarrow> error + int \<Rightarrow> (error + string) \<times> CurrentLoad" where
  "storeAndReturn self r =
     (case r of
        Inl e \<Rightarrow> (Inl e, self)
      | Inr i \<Rightarrow> (py_index (svrdb self) i, self\<lparr>currentStateIndex := i\<rparr>))"

definition getStateAtTime :: "filesys \<Rightarrow> CurrentLoad \<Rightarrow> string \<Rightarrow> (error + string) \<times> CurrentLoad" where
  "getStateAtTime fs self atTime =
     (case checkAndChangeLoads fs self (Some atTime) None of
        (Inl e, self') \<Rightarrow> (Inl e, self')
      | (Inr _, self') \<Rightarrow> storeAndReturn self' (linearTime self' atTime))"

definition getStateAtVCDU :: "filesys \<Rightarrow> CurrentLoad \<Rightarrow> int \<Rightarrow> (error + string) \<times> CurrentLoad" where
  "getStateAtVCDU fs self atVCDU =
     (case checkAndChangeLoads fs self None (Some atVCDU) of
        (Inl e, self') \<Rightarrow> (Inl e, self')
      | (Inr _, self') \<Rightarrow> storeAndReturn self' (linearVCDU self' atVCDU))"

definition binaryGetStateAtTime ::
  "filesys \<Rightarrow> CurrentLoad \<Rightarrow> string \<Rightarrow> (error + string) \<times> CurrentLoad" where
  "binaryGetStateAtTime fs self atTime =
     (case checkAndChangeLoads fs self (Some atTime) None of
        (Inl e, self') \<Rightarrow> (Inl e, self')
      | (Inr _, self') \<Rightarrow> storeAndReturn self' (binaryTime self' atTime))"

definition binaryGetStateAtVCDU ::
  "filesys \<Rightarrow> CurrentLoad \<Rightarrow> int \<Rightarrow> (error + string) \<times> CurrentLoad" where
  "binaryGetStateAtVCDU fs self atVCDU =
     (case checkAndChangeLoads fs self None (Some atVCDU) of
        (Inl e, self') \<Rightarrow> (Inl e, self')
      | (Inr _, self') \<Rightarrow> storeAndReturn self' (binaryVCDU self' atVCDU))"

declare fwdTime.simps [simp del] bwdTime.simps [simp del] fwdVCDU.simps [simp del]
  bwdVCDU.simps [simp del] bisectTime.simps [simp del] bisectVCDU.simps [simp del]

section \<open>Vocabulary of the properties\<close>

text \<open>The time tag of the record at a valid index \<open>k\<close>.\<close>

definition timeAt :: "CurrentLoad \<Rightarrow> int \<Rightarrow> string" where
  "timeAt self k = take 21 (svrdb self ! nat k)"

text \<open>
  A load is ordered in time from \<open>startIndex\<close> on: the time tags of the records at
  indices \<open>startIndex \<le> j \<le> k\<close> do not decrease.
\<close>

definition timeOrdered :: "CurrentLoad \<Rightarrow> bool" where
  "timeOrdered self =
     (\<forall>j k. startIndex \<le> j \<and> j \<le> k \<and> k < int (length (svrdb self))
            \<longrightarrow> timeAt self j \<le> timeAt self k)"

text \<open>
  The names captured from the lines of a listing, and among a set of names those that are
  the greatest of their date (the seven characters \<^verbatim>\<open>t[-8:-1]\<close>).
\<close>

definition captured :: "string list \<Rightarrow> string set" where
  "captured rawlist = {d. \<exists>t \<in> set rawlist. lrdre_match t = Some d}"

definition latest_per_date :: "string set \<Rightarrow> string set" where
  "latest_per_date A = {t \<in> A. \<forall>u \<in> A. lrdate_of u = lrdate_of t \<longrightarrow> u \<le> t}"

text \<open>
  \<open>r\<close> is the last index from \<open>startIndex\<close> on whose time tag is at or before \<open>T\<close>.
\<close>

definition lastAtOrBefore :: "CurrentLoad \<Rightarrow> string \<Rightarrow> int \<Rightarrow> bool" where
  "lastAtOrBefore self T r =
     (startIndex \<le> r \<and> r < int (length (svrdb self)) \<and> timeAt self r \<le> T
      \<and> (\<forall>k. r < k \<and> k < int (length (svrdb self)) \<longrightarrow> T < timeAt self k))"

text \<open>
  Invariants of the pruning loop: the dictionary has one entry per key, each keyed by the
  date of its value; and \<open>best m A\<close>: the map holds, for every date occurring in \<open>A\<close>,
  a name of \<open>A\<close> of that date that is at least every other one.
\<close>

definition keyed :: "(string \<times> string) list \<Rightarrow> bool" where
  "keyed d = (distinct (map fst d) \<and> (\<forall>p \<in> set d. fst p = lrdate_of (snd p)))"

definition best :: "(string \<rightharpoonup> string) \<Rightarrow> string set \<Rightarrow> bool" where
  "best m A =
     ((\<forall>a \<in> A. \<exists>v. m (lrdate_of a) = Some v \<and> a \<le> v)
      \<and> (\<forall>k v. m k = Some v \<longrightarrow> v \<in> A \<and> lrdate_of v = k))"

text \<open>
  The parts of a load directory name \<^verbatim>\<open><root>/YYYY:DOY:<rev>-<AAA><dddd><rev>\<close>, read off the
  name itself: the base name is what follows the last \<^verbatim>\<open>/\<close>; characters 1 to 8 of the base
  name are the year and the day of the year; characters 12 to 18, the three letters and four
  digits between the \<^verbatim>\<open>-\<close> and the final revision letter, are the date key.
  \<open>matching\<close> are the lines of a listing that the pattern matches, and
  \<open>greatest_per_key\<close> those names of a set that are the greatest of their date key.
\<close>

definition basename :: "string \<Rightarrow> string" where
  "basename d = rev (takeWhile (\<lambda>c. c \<noteq> CHR ''/'') (rev d))"

definition date_key :: "string \<Rightarrow> string" where
  "date_key d = take 7 (drop 11 (basename d))"

definition year_day :: "string \<Rightarrow> string" where
  "year_day d = take 8 (basename d)"

definition matching :: "string list \<Rightarrow> string set" where
  "matching rawlist = {t \<in> set rawlist. lrdre_match t \<noteq> None}"

definition greatest_per_key :: "string set \<Rightarrow> string set" where
  "greatest_per_key A = {t \<in> A. \<forall>u \<in> A. date_key u = date_key t \<longrightarrow> u \<le> t}"

section \<open>Example loads, trackers and file systems\<close>

text \<open>
  Load A: forty lines carried over from the previous load, then three records of its
  own. Load B is its successor; its first line repeats the last record of load A.
\<close>

definition dirA :: string where
  "dirA = ''/d0/hrc/occ/mp/2024:099:A-APR0824A''"

definition dirB :: string where
  "dirB = ''/d0/hrc/occ/mp/2024:106:A-APR1524A''"

definition loadA :: "string list" where
  "loadA = replicate 40 ''2024:098:23:00:00.000 4990000 HRC'' @
     [''2024:099:00:00:00.000 5000000 HRC'',
      ''2024:102:00:00:00.000 5000100 HRC'',
      ''2024:106:00:00:00.000 5000200 HRC'']"

definition loadB :: "string list" where
  "loadB = replicate 41 ''2024:106:00:00:00.000 5000200 HRC'' @
     [''2024:109:00:00:00.000 5000300 HRC'',
      ''2024:113:00:00:00.000 5000400 HRC'']"

definition hrcselB :: "string list" where
  "hrcselB = [''# HRC selected commands'', ''2024:106:00:10:00.000 COMMAND_SW'']"

definition with_eol :: "string list \<Rightarrow> string list" where
  "with_eol lns = map (\<lambda>l. l @ [CHR 0x0A]) lns"

text \<open>
  A file system in which directory B is the only one newer than directory A and nothing
  is newer than B; \<open>svrdbB\<close> is the content of B's state vector file.
\<close>

definition fsWith :: "string list \<Rightarrow> filesys" where
  "fsWith svrdbB =
     \<lparr>run_find = (\<lambda>d r. if r = dirA
                          then (0, ''/d0/hrc/occ/mp'' @ [CHR 0x0A] @ dirB @ [CHR 0x0A], [])
                          else (0, [], [])),
      getmtime = (\<lambda>p. if p = dirB then Inr 1713139200 else Inl OSError),
      read_lines = (\<lambda>p. if p = dirB @ ''/APR1524A.combined.hrcsel'' then Inr (with_eol hrcselB)
                         else if p = dirB @ ''/APR1524A.svrdb'' then Inr (with_eol svrdbB)
                         else Inl IOError)\<rparr>"

definition fsA :: filesys where
  "fsA = fsWith loadB"

text \<open>The tracker on load A, with the cursor at \<open>startIndex\<close> and load B pending.\<close>

definition trackerA :: CurrentLoad where
  "trackerA =
     \<lparr>loadReviewDir = ''/d0/hrc/occ/mp'', svrdb = loadA, currentStateIndex = 40,
      currentLoads = dirA, nextLoads = Some dirB,
      nextStart = Some ''2024:106:00:10:00.000'',
      nextFirstTime = Some ''2024:106:00:00:00.000'', nextFirstVCDU = Some 5000200\<rparr>"

text \<open>The tracker as \<^verbatim>\<open>slurpState\<close> leaves it on load A at construction: nothing pending.\<close>

definition trackerFresh :: CurrentLoad where
  "trackerFresh =
     \<lparr>loadReviewDir = ''/d0/hrc/occ/mp'', svrdb = loadA, currentStateIndex = 40,
      currentLoads = dirA, nextLoads = None, nextStart = None,
      nextFirstTime = None, nextFirstVCDU = None\<rparr>"

text \<open>
  The wraparound scenario: the last record of the active load has counter 16777210, the
  pending load starts at counter 5.
\<close>

definition loadW :: "string list" where
  "loadW = replicate 40 ''2024:098:23:00:00.000 16770000 HRC'' @
     [''2024:099:00:00:00.000 16777000 HRC'',
      ''2024:102:00:00:00.000 16777100 HRC'',
      ''2024:106:00:00:00.000 16777210 HRC'']"

definition loadW' :: "string list" where
  "loadW' = replicate 41 ''2024:106:00:00:16.000 5 HRC'' @
     [''2024:109:00:00:00.000 100 HRC'',
      ''2024:113:00:00:00.000 200 HRC'']"

definition trackerW :: CurrentLoad where
  "trackerW =
     \<lparr>loadReviewDir = ''/d0/hrc/occ/mp'', svrdb = loadW, currentStateIndex = 41,
      currentLoads = dirA, nextLoads = Some dirB,
      nextStart = Some ''2024:106:00:10:00.000'',
      nextFirstTime = Some ''2024:106:00:00:16.000'', nextFirstVCDU = Some 5\<rparr>"

text \<open>A successor whose first record has counter 0, and one without any time-tagged line.\<close>

definition loadZ :: "string list" where
  "loadZ = replicate 41 ''2024:106:00:00:00.000 0 HRC'' @
     [''2024:109:00:00:00.000 100 HRC'',
      ''2024:113:00:00:00.000 200 HRC'']"

definition loadE :: "string list" where
  "loadE = [''# state vector database'', ''(empty)'']"

text \<open>
  A load with two adjacent records of equal time tag, and the tracker on load B after the
  switch.
\<close>

definition loadTie :: "string list" where
  "loadTie = replicate 40 ''2024:098:23:00:00.000 4990000 HRC'' @
     [''2024:099:00:00:00.000 5000000 HRC'',
      ''2024:100:00:00:00.000 5000100 HRC'',
      ''2024:100:00:00:00.000 5000150 HRC'',
      ''2024:106:00:00:00.000 5000200 HRC'']"

definition trackerTie :: CurrentLoad where
  "trackerTie = trackerA\<lparr>svrdb := loadTie\<rparr>"

definition trackerB :: CurrentLoad where
  "trackerB =
     \<lparr>loadReviewDir = ''/d0/hrc/occ/mp'', svrdb = loadB, currentStateIndex = 40,
      currentLoads = dirB, nextLoads = None,
      nextStart = Some ''2024:106:00:10:00.000'',
      nextFirstTime = Some ''2024:106:00:00:00.000'', nextFirstVCDU = Some 5000200\<rparr>"

text \<open>
  A listing with two revisions of one date, a later load, the root directory, a directory
  that is no load and a test load with revision letter O.
\<close>

definition dirB2 :: string where
  "dirB2 = ''/d0/hrc/occ/mp/2024:106:B-APR1524B''"

definition dirC :: string where
  "dirC = ''/d0/hrc/occ/mp/2024:113:A-APR2224A''"

definition listing :: string where
  "listing = concat (with_eol [''/d0/hrc/occ/mp'', dirB, dirC, dirB2, ''/d0/hrc/occ/mp/notes'',
                               ''/d0/hrc/occ/mp/2024:113:O-APR2224O''])"

text \<open>
  A second load directory of the same year and day as B, a listing holding both, and a
  listing whose only load-like line is B's name followed by \<^verbatim>\<open>_old\<close>. \<open>fsListing l\<close> is a
  file system whose \<^verbatim>\<open>find\<close> prints \<open>l\<close>.
\<close>

definition dirD :: string where
  "dirD = ''/d0/hrc/occ/mp/2024:106:B-APR1624B''"

definition listingSameDay :: string where
  "listingSameDay = concat (with_eol [''/d0/hrc/occ/mp'', dirB, dirD])"

definition listingOld :: string where
  "listingOld = concat (with_eol [''/d0/hrc/occ/mp'', dirB @ ''_old''])"

definition fsListing :: "string \<Rightarrow> filesys" where
  "fsListing l =
     \<lparr>run_find = (\<lambda>d r. (0, l, [])),
      getmtime = (\<lambda>p. if p = dirB then Inr 1713139200
                       else if p = dirB2 then Inr 1713225600
                       else if p = dirD then Inr 1713312000
                       else if p = dirC then Inr 1713744000 else Inl OSError),
      read_lines = (\<lambda>p. Inl IOError)\<rparr>"

text \<open>A time-ordered load whose last two records carry the same time tag.\<close>

definition loadTieEnd :: "string list" where
  "loadTieEnd = replicate 40 ''2024:098:23:00:00.000 4990000 HRC'' @
     [''2024:099:00:00:00.000 5000000 HRC'',
      ''2024:102:00:00:00.000 5000100 HRC'',
      ''2024:102:00:00:00.000 5000150 HRC'']"

definition trackerTieEnd :: CurrentLoad where
  "trackerTieEnd = trackerA\<lparr>svrdb := loadTieEnd\<rparr>"

text \<open>A file system in which nothing is newer than directory A.\<close>

definition fsQuiet :: filesys where
  "fsQuiet =
     \<lparr>run_find = (\<lambda>d r. (0, [], [])),
      getmtime = (\<lambda>p. Inl OSError),
      read_lines = (\<lambda>p. if p = dirA @ ''/APR0824A.svrdb'' then Inr (with_eol loadA)
                         else Inl IOError)\<rparr>"

section \<open>Results about the cyclic difference\<close>

lemma deltaVCDU_cases:
  assumes "- 16777216 < b - a" "b - a < 16777216"
  shows "deltaVCDU a b = (if b - a < - 8388608 then b - a + 16777216
                    else if b - a > 8388608 then b - a - 16777216 else b - a)"
  using assms unfolding deltaVCDU_def vcduWrap_def Let_def by (simp add: abs_if)

text \<open>
  Claim C6, as stated: for all \<open>a\<close>, \<open>b\<close> in \<open>[0, 2^24)\<close> the value
  \<open>deltaVCDU a b\<close> lies in the half-open interval \<open>(-2^23, 2^23]\<close>. At the antipodal
  pair \<open>a = 2^23\<close>, \<open>b = 0\<close> the code returns \<open>-2^23\<close>, outside that interval.
\<close>

theorem deltaVCDU_antipodal_counterexample:
  "\<not> (- (2 ^ 23) < deltaVCDU 8388608 0 \<and> deltaVCDU 8388608 0 \<le> 2 ^ 23)"
  by (simp add: deltaVCDU_def vcduWrap_def)

text \<open>
  Claim C6, amended: for all \<open>a\<close>, \<open>b\<close> in \<open>[0, 2^24)\<close>, \<open>deltaVCDU a b\<close> is
  congruent to \<open>b - a\<close> modulo \<open>2^24\<close> and lies in the closed interval
  \<open>[-2^23, 2^23]\<close>. Unless \<open>a - b = 2^23\<close> it lies in \<open>(-2^23, 2^23]\<close> and is the
  only integer there in that congruence class; when \<open>a - b = 2^23\<close> it is \<open>-2^23\<close>.
\<close>

theorem deltaVCDU_closed_interval:
  assumes "0 \<le> a" "a < 2 ^ 24" "0 \<le> b" "b < 2 ^ 24"
  shows "(deltaVCDU a b - (b - a)) mod 2 ^ 24 = 0
       \<and> - (2 ^ 23) \<le> deltaVCDU a b \<and> deltaVCDU a b \<le> 2 ^ 23
       \<and> (a - b \<noteq> 2 ^ 23 \<longrightarrow>
            - (2 ^ 23) < deltaVCDU a b
            \<and> (\<forall>d. - (2 ^ 23) < d \<and> d \<le> 2 ^ 23 \<and> (d - (b - a)) mod 2 ^ 24 = 0
                  \<longrightarrow> d = deltaVCDU a b))
       \<and> (a - b = 2 ^ 23 \<longrightarrow> deltaVCDU a b = - (2 ^ 23))"
proof -
  let ?e = "deltaVCDU a b"
  have rng: "- 16777216 < b - a" "b - a < 16777216"
    using assms by simp_all
  note dc = deltaVCDU_cases [OF rng]
  have shape: "?e = b - a \<or> ?e = b - a + 16777216 \<or> ?e = b - a - 16777216"
    using dc by presburger
  then obtain k :: int where k: "?e - (b - a) = 16777216 * k"
  proof (elim disjE)
    assume "?e = b - a" then have "?e - (b - a) = 16777216 * 0" by simp
    then show ?thesis using that by blast
  next
    assume "?e = b - a + 16777216" then have "?e - (b - a) = 16777216 * 1" by simp
    then show ?thesis using that by blast
  next
    assume "?e = b - a - 16777216" then have "?e - (b - a) = 16777216 * (- 1)" by simp
    then show ?thesis using that by blast
  qed
  have cong: "(?e - (b - a)) mod 16777216 = 0"
    unfolding k by simp
  have lo: "- 8388608 \<le> ?e" using dc rng by presburger
  have hi: "?e \<le> 8388608" using dc rng by presburger
  have anti: "a - b = 8388608 \<longrightarrow> ?e = - 8388608" using dc by presburger
  have strict: "a - b \<noteq> 8388608 \<longrightarrow> - 8388608 < ?e" using dc rng by presburger
  have uniq: "d = ?e"
    if d: "- 8388608 < d" "d \<le> 8388608" "(d - (b - a)) mod 16777216 = 0"
      and ne: "a - b \<noteq> 8388608" for d
  proof -
    from d(3) obtain j where j: "d - (b - a) = 16777216 * j"
      by (auto simp: mod_eq_0_iff_dvd dvd_def)
    have "d - ?e = 16777216 * (j - k)"
      using j k by (simp add: algebra_simps)
    moreover have "- 16777216 < d - ?e" "d - ?e < 16777216"
      using d(1,2) hi strict ne by auto
    ultimately have "j - k = 0" by auto
    with \<open>d - ?e = 16777216 * (j - k)\<close> show ?thesis by simp
  qed
  have n24: "(2::int) ^ 24 = 16777216" and n23: "(2::int) ^ 23 = 8388608"
    by simp_all
  show ?thesis
    unfolding n24 n23
  proof (intro conjI impI allI)
    show "(?e - (b - a)) mod 16777216 = 0" by (rule cong)
    show "- 8388608 \<le> ?e" by (rule lo)
    show "?e \<le> 8388608" by (rule hi)
    show "- 8388608 < ?e" if "a - b \<noteq> 8388608"
      using strict that by (rule mp)
    show "d = ?e"
      if "a - b \<noteq> 8388608"
        and "- 8388608 < d \<and> d \<le> 8388608 \<and> (d - (b - a)) mod 16777216 = 0" for d
      using that by (intro uniq) (elim conjE, assumption)+
    show "?e = - 8388608" if "a - b = 8388608"
      using anti that by (rule mp)
  qed
qed

theorem deltaVCDU_closed_interval_witness:
  "(0::int) \<le> 16777210 \<and> (16777210::int) < 2 ^ 24 \<and> (0::int) \<le> 10 \<and> (10::int) < 2 ^ 24
   \<and> deltaVCDU 16777210 10 = 16 \<and> (16 - (10 - 16777210)) mod 2 ^ 24 = (0::int)
   \<and> deltaVCDU 8388608 0 = - (2 ^ 23)"
  using deltaVCDU_closed_interval [of 16777210 10] deltaVCDU_closed_interval [of 8388608 0]
  by (simp add: deltaVCDU_def vcduWrap_def)

section \<open>The search loops on an ordered load\<close>

text \<open>
  Each loop is characterised by the index at which it stops: the forward scan at the first
  index whose time tag is after the query (or the end), the backward scan at the first
  index at or before the query (or \<open>startIndex\<close>), the bisection at the index \<open>r\<close> such
  that the records in \<open>(klo, r]\<close> are at or before the query and those in \<open>(r, khi)\<close>
  after it.
\<close>

lemma stateTime_in:
  "0 \<le> k \<Longrightarrow> k < int (length (svrdb self)) \<Longrightarrow> stateTime self k = Inr (timeAt self k)"
  by (simp add: stateTime_def py_index_def timeAt_def)

lemma fwdTime_exact:
  assumes "0 \<le> a" "a \<le> j" "j \<le> int (length (svrdb self))"
    and "\<forall>k. a \<le> k \<and> k < j \<longrightarrow> timeAt self k \<le> T"
    and "j < int (length (svrdb self)) \<longrightarrow> T < timeAt self j"
  shows "fwdTime self T a = Inr j"
  using assms
proof (induction "nat (j - a)" arbitrary: a)
  case 0
  then have aj: "a = j" by simp
  show ?case
  proof (cases "j < int (length (svrdb self))")
    case True
    with 0 aj show ?thesis
      by (subst fwdTime.simps) (simp add: stateTime_in)
  next
    case False
    with aj show ?thesis
      by (subst fwdTime.simps) simp
  qed
next
  case (Suc n)
  then have lt: "a < j" by simp
  with Suc.prems have inr: "a < int (length (svrdb self))" and le: "timeAt self a \<le> T"
    by auto
  from le have nlt: "\<not> T < timeAt self a" by (simp add: not_less)
  have step: "fwdTime self T a = fwdTime self T (a + 1)"
    using inr nlt Suc.prems(1) by (subst fwdTime.simps) (simp add: stateTime_in)
  have "fwdTime self T (a + 1) = Inr j"
  proof (rule Suc.hyps(1))
    show "n = nat (j - (a + 1))" using Suc.hyps(2) by simp
    show "0 \<le> a + 1" using Suc.prems(1) by simp
    show "a + 1 \<le> j" using lt by simp
    show "j \<le> int (length (svrdb self))" by (rule Suc.prems(3))
    show "\<forall>k. a + 1 \<le> k \<and> k < j \<longrightarrow> timeAt self k \<le> T" using Suc.prems(4) by simp
    show "j < int (length (svrdb self)) \<longrightarrow> T < timeAt self j" by (rule Suc.prems(5))
  qed
  with step show ?case by simp
qed

lemma bwdTime_exact:
  assumes "startIndex \<le> j" "j \<le> a" "a < int (length (svrdb self))"
    and "\<forall>k. j < k \<and> k \<le> a \<longrightarrow> T < timeAt self k"
    and "startIndex < j \<longrightarrow> timeAt self j \<le> T"
  shows "bwdTime self T a = Inr j"
  using assms
proof (induction "nat (a - j)" arbitrary: a)
  case 0
  then have aj: "a = j" by simp
  have j0: "0 \<le> j" using 0(2) by (simp add: startIndex_def)
  show ?case
  proof (cases "startIndex < j")
    case True
    with 0 aj j0 show ?thesis
      by (subst bwdTime.simps) (simp add: stateTime_in)
  next
    case False
    with aj show ?thesis
      by (subst bwdTime.simps) simp
  qed
next
  case (Suc n)
  then have lt: "j < a" by simp
  with Suc.prems have gt: "startIndex < a" and a0: "0 \<le> a" and tl: "T < timeAt self a"
    by (auto simp: startIndex_def)
  from tl have nle: "\<not> timeAt self a \<le> T" by (simp add: not_le)
  have step: "bwdTime self T a = bwdTime self T (a - 1)"
    using gt a0 nle Suc.prems(3) by (subst bwdTime.simps) (simp add: stateTime_in)
  have "bwdTime self T (a - 1) = Inr j"
  proof (rule Suc.hyps(1))
    show "n = nat (a - 1 - j)" using Suc.hyps(2) by simp
    show "startIndex \<le> j" by (rule Suc.prems(1))
    show "j \<le> a - 1" using lt by simp
    show "a - 1 < int (length (svrdb self))" using Suc.prems(3) by simp
    show "\<forall>k. j < k \<and> k \<le> a - 1 \<longrightarrow> T < timeAt self k" using Suc.prems(4) by simp
    show "startIndex < j \<longrightarrow> timeAt self j \<le> T" by (rule Suc.prems(5))
  qed
  with step show ?case by simp
qed

lemma bisectTime_exact:
  assumes "0 \<le> klo" "klo \<le> r" "r < khi" "khi \<le> int (length (svrdb self))"
    and "\<forall>k. klo < k \<and> k \<le> r \<longrightarrow> timeAt self k \<le> T"
    and "\<forall>k. r < k \<and> k < khi \<longrightarrow> T < timeAt self k"
  shows "bisectTime self T klo khi = Inr r"
  using assms
proof (induction self T klo khi rule: bisectTime.induct)
  case (1 self atTime klo khi)
  show ?case
  proof (cases "khi > klo + 1")
    case False
    with "1.prems" have "klo = r" by simp
    with False show ?thesis by (subst bisectTime.simps) simp
  next
    case True
    let ?k = "(klo + khi) div 2"
    have kb: "klo < ?k" "?k < khi" using True by simp_all
    have kin: "0 \<le> ?k" "?k < int (length (svrdb self))"
      using kb "1.prems"(1,4) by simp_all
    have st: "stateTime self ?k = Inr (timeAt self ?k)"
      using kin by (rule stateTime_in)
    show ?thesis
    proof (cases "?k \<le> r")
      case kr: True
      then have le: "timeAt self ?k \<le> atTime" using "1.prems"(5) kb by simp
      have "bisectTime self atTime ?k khi = Inr r"
        using True st le kr "1.prems" kb kin
        by (intro "1.IH"(1)[of "timeAt self ?k"]) simp_all
      then show ?thesis
        using True st le by (subst bisectTime.simps) simp
    next
      case kr: False
      then have gt: "atTime < timeAt self ?k" using "1.prems"(6) kb by simp
      then have nle: "\<not> timeAt self ?k \<le> atTime" by simp
      have "bisectTime self atTime klo ?k = Inr r"
        using True st nle kr "1.prems" kb kin
        by (intro "1.IH"(2)[of "timeAt self ?k"]) simp_all
      then show ?thesis
        using True st nle by (subst bisectTime.simps) simp
    qed
  qed
qed

text \<open>
  Whatever the records hold, bisection from \<open>startIndex\<close> stays in
  \<open>[startIndex, len - 1]\<close>.
\<close>

lemma bisectTime_bounds:
  assumes "0 \<le> klo" "klo < khi" "khi \<le> int (length (svrdb self))"
  shows "\<exists>r. bisectTime self T klo khi = Inr r \<and> klo \<le> r \<and> r < khi"
  using assms
proof (induction self T klo khi rule: bisectTime.induct)
  case (1 self atTime klo khi)
  show ?case
  proof (cases "khi > klo + 1")
    case False
    with "1.prems" show ?thesis by (subst bisectTime.simps) simp
  next
    case True
    let ?k = "(klo + khi) div 2"
    have kb: "klo < ?k" "?k < khi" using True by simp_all
    have kin: "0 \<le> ?k" "?k < int (length (svrdb self))"
      using kb "1.prems"(1,3) by simp_all
    have st: "stateTime self ?k = Inr (timeAt self ?k)"
      using kin by (rule stateTime_in)
    show ?thesis
    proof (cases "timeAt self ?k \<le> atTime")
      case le: True
      have "\<exists>r. bisectTime self atTime ?k khi = Inr r \<and> ?k \<le> r \<and> r < khi"
        using True st le kb kin "1.prems"
        by (intro "1.IH"(1)[of "timeAt self ?k"]) simp_all
      then obtain r where "bisectTime self atTime ?k khi = Inr r" "?k \<le> r" "r < khi"
        by blast
      then show ?thesis
        using True st le kb by (subst bisectTime.simps) simp
    next
      case nle: False
      have "\<exists>r. bisectTime self atTime klo ?k = Inr r \<and> klo \<le> r \<and> r < ?k"
        using True st nle kb kin "1.prems"
        by (intro "1.IH"(2)[of "timeAt self ?k"]) simp_all
      then obtain r where "bisectTime self atTime klo ?k = Inr r" "klo \<le> r" "r < ?k"
        by blast
      then show ?thesis
        using True st nle kb by (subst bisectTime.simps) simp
    qed
  qed
qed

lemma binaryTime_in_range:
  assumes "startIndex < int (length (svrdb self))"
  shows "\<exists>r. binaryTime self T = Inr r \<and> startIndex \<le> r \<and> r < int (length (svrdb self))"
  unfolding binaryTime_def
  using assms by (intro bisectTime_bounds) (simp_all add: startIndex_def)

text \<open>
  On a load ordered in time, with the cursor in \<open>[startIndex, len - 1]\<close>, both strategies
  resolve the last index whose time tag is at or before the query, provided there is one:
  the query is not before the record at \<open>startIndex\<close>.
\<close>

lemma linearTime_exact:
  assumes ord: "timeOrdered self"
    and cur: "startIndex \<le> currentStateIndex self"
             "currentStateIndex self < int (length (svrdb self))"
    and r: "lastAtOrBefore self T r"
  shows "linearTime self T = Inr r"
proof -
  let ?c = "currentStateIndex self"
  let ?n = "int (length (svrdb self))"
  from r have rb: "startIndex \<le> r" "r < ?n" and rT: "timeAt self r \<le> T"
    and after: "\<And>k. r < k \<Longrightarrow> k < ?n \<Longrightarrow> T < timeAt self k"
    by (auto simp: lastAtOrBefore_def)
  have upto: "timeAt self k \<le> T" if "startIndex \<le> k" "k \<le> r" for k
  proof -
    have "timeAt self k \<le> timeAt self r"
      using ord that rb unfolding timeOrdered_def by blast
    with rT show ?thesis by simp
  qed
  have c0: "0 \<le> ?c" using cur(1) by (simp add: startIndex_def)
  have st: "stateTime self ?c = Inr (timeAt self ?c)"
    using c0 cur(2) by (rule stateTime_in)
  show ?thesis
  proof (cases "timeAt self ?c \<le> T")
    case True
    have cr: "?c \<le> r"
    proof (rule ccontr)
      assume "\<not> ?c \<le> r"
      then have "T < timeAt self ?c" using after cur(2) by simp
      with True show False by simp
    qed
    have "fwdTime self T (?c + 1) = Inr (r + 1)"
    proof (rule fwdTime_exact)
      show "0 \<le> ?c + 1" using c0 by simp
      show "?c + 1 \<le> r + 1" using cr by simp
      show "r + 1 \<le> ?n" using rb by simp
      show "\<forall>k. ?c + 1 \<le> k \<and> k < r + 1 \<longrightarrow> timeAt self k \<le> T"
        using upto cur(1) by simp
      show "r + 1 < ?n \<longrightarrow> T < timeAt self (r + 1)"
        using after by simp
    qed
    with True st show ?thesis by (simp add: linearTime_def)
  next
    case False
    have rc: "r < ?c"
    proof (rule ccontr)
      assume "\<not> r < ?c"
      then have "timeAt self ?c \<le> T" using upto cur(1) by simp
      with False show False by simp
    qed
    have "bwdTime self T (?c - 1) = Inr r"
    proof (rule bwdTime_exact)
      show "startIndex \<le> r" by (rule rb)
      show "r \<le> ?c - 1" using rc by simp
      show "?c - 1 < ?n" using cur(2) by simp
      show "\<forall>k. r < k \<and> k \<le> ?c - 1 \<longrightarrow> T < timeAt self k"
        using after cur(2) by simp
      show "startIndex < r \<longrightarrow> timeAt self r \<le> T" using rT by simp
    qed
    with False st show ?thesis by (simp add: linearTime_def)
  qed
qed

lemma binaryTime_exact:
  assumes ord: "timeOrdered self" and r: "lastAtOrBefore self T r"
  shows "binaryTime self T = Inr r"
proof -
  let ?n = "int (length (svrdb self))"
  from r have rb: "startIndex \<le> r" "r < ?n" and rT: "timeAt self r \<le> T"
    and after: "\<And>k. r < k \<Longrightarrow> k < ?n \<Longrightarrow> T < timeAt self k"
    by (auto simp: lastAtOrBefore_def)
  have upto: "timeAt self k \<le> T" if "startIndex \<le> k" "k \<le> r" for k
  proof -
    have "timeAt self k \<le> timeAt self r"
      using ord that rb unfolding timeOrdered_def by blast
    with rT show ?thesis by simp
  qed
  have "bisectTime self T startIndex ?n = Inr r"
  proof (rule bisectTime_exact)
    show "0 \<le> startIndex" by (simp add: startIndex_def)
    show "startIndex \<le> r" "r < ?n" by (rule rb)+
    show "?n \<le> ?n" by simp
    show "\<forall>k. startIndex < k \<and> k \<le> r \<longrightarrow> timeAt self k \<le> T" using upto by simp
    show "\<forall>k. r < k \<and> k < ?n \<longrightarrow> T < timeAt self k" using after by simp
  qed
  then show ?thesis by (simp add: binaryTime_def)
qed

lemma lastAtOrBefore_exists:
  assumes len: "startIndex < int (length (svrdb self))"
    and first: "timeAt self startIndex \<le> T"
  shows "\<exists>r. lastAtOrBefore self T r"
proof -
  let ?n = "int (length (svrdb self))"
  let ?S = "{k. startIndex \<le> k \<and> k < ?n \<and> timeAt self k \<le> T}"
  have fin: "finite ?S"
    by (rule finite_subset[of _ "{startIndex..<?n}"]) auto
  have ne: "?S \<noteq> {}" using len first by blast
  let ?r = "Max ?S"
  have rin: "?r \<in> ?S" using fin ne by (rule Max_in)
  have "T < timeAt self k" if "?r < k" "k < ?n" for k
  proof (rule ccontr)
    assume "\<not> T < timeAt self k"
    then have "timeAt self k \<le> T" by (simp add: not_less)
    moreover have "startIndex \<le> k" using rin that by simp
    ultimately have "k \<in> ?S" using that by simp
    then have "k \<le> ?r" using fin by (rule Max_ge[rotated])
    with that show False by simp
  qed
  with rin have "lastAtOrBefore self T ?r"
    by (simp add: lastAtOrBefore_def)
  then show ?thesis ..
qed

lemma linear_binary_agree_from_start:
  assumes "timeOrdered self"
    and "startIndex \<le> currentStateIndex self"
        "currentStateIndex self < int (length (svrdb self))"
    and "timeAt self startIndex \<le> T"
  shows "\<exists>r. startIndex \<le> r \<and> r < int (length (svrdb self))
             \<and> linearTime self T = Inr r \<and> binaryTime self T = Inr r"
proof -
  have "startIndex < int (length (svrdb self))" using assms(2,3) by simp
  then obtain r where r: "lastAtOrBefore self T r"
    using assms(4) lastAtOrBefore_exists by blast
  have "linearTime self T = Inr r" using assms(1-3) r by (rule linearTime_exact)
  moreover have "binaryTime self T = Inr r" using assms(1) r by (rule binaryTime_exact)
  ultimately show ?thesis using r by (auto simp: lastAtOrBefore_def)
qed

lemma timeOrdered_sorted:
  assumes "sorted (map (take 21) (drop 40 (svrdb self)))"
  shows "timeOrdered self"
  unfolding timeOrdered_def
proof (intro allI impI)
  fix j k
  assume h: "startIndex \<le> j \<and> j \<le> k \<and> k < int (length (svrdb self))"
  let ?xs = "map (take 21) (drop 40 (svrdb self))"
  have j: "nat j - 40 \<le> nat k - 40" "nat k - 40 < length ?xs"
    using h by (auto simp: startIndex_def)
  have "?xs ! (nat j - 40) \<le> ?xs ! (nat k - 40)"
    using assms j by (simp add: sorted_iff_nth_mono del: length_map length_drop nth_map)
  moreover have "?xs ! (nat j - 40) = timeAt self j" "?xs ! (nat k - 40) = timeAt self k"
    using h by (auto simp: timeAt_def startIndex_def)
  ultimately show "timeAt self j \<le> timeAt self k" by simp
qed

text \<open>
  Claim C5, as stated: whenever the records at two adjacent indices \<open>i\<close> and \<open>i + 1\<close> (both at
  least \<open>startIndex\<close>) share a time tag and the query asks for that time tag, both
  \<^verbatim>\<open>getStateAtTime\<close> and \<^verbatim>\<open>binaryGetStateAtTime\<close> resolve index \<open>i + 1\<close>. When the tie is at
  the last two records (41 and 42 of a time-ordered load, cursor at 40, load B pending), the
  query is at the time tag of the last record, so \<^verbatim>\<open>checkAndChangeLoads\<close> switches to load B
  first (\<^verbatim>\<open>atTime >= self.stateTime(klast)\<close>) and the answer comes from load B.
\<close>

theorem tie_at_last_record_switches_counterexample:
  "sorted (map (take 21) (drop 40 (svrdb trackerTieEnd)))
   \<and> int (length (svrdb trackerTieEnd)) = 43
   \<and> currentStateIndex trackerTieEnd = 40
   \<and> timeAt trackerTieEnd 41 = ''2024:102:00:00:00.000''
   \<and> timeAt trackerTieEnd 42 = ''2024:102:00:00:00.000''
   \<and> getStateAtTime fsA trackerTieEnd ''2024:102:00:00:00.000''
        \<noteq> (Inr (svrdb trackerTieEnd ! 42), trackerTieEnd\<lparr>currentStateIndex := 42\<rparr>)
   \<and> binaryGetStateAtTime fsA trackerTieEnd ''2024:102:00:00:00.000''
        \<noteq> (Inr (svrdb trackerTieEnd ! 42), trackerTieEnd\<lparr>currentStateIndex := 42\<rparr>)
   \<and> switchRequired trackerTieEnd (Some ''2024:102:00:00:00.000'') None = Inr True
   \<and> getStateAtTime fsA trackerTieEnd ''2024:102:00:00:00.000''
        = (Inr ''2024:106:00:00:00.000 5000200 HRC'', trackerB\<lparr>currentStateIndex := 39\<rparr>)
   \<and> binaryGetStateAtTime fsA trackerTieEnd ''2024:102:00:00:00.000''
        = (Inr ''2024:106:00:00:00.000 5000200 HRC'', trackerB\<lparr>currentStateIndex := 40\<rparr>)"
  by code_simp

text \<open>
  Claim C5, amended: in a load ordered in time from \<open>startIndex\<close> on, with the cursor in
  \<open>[startIndex, len - 1]\<close>, if the records at the adjacent indices \<open>i\<close> and \<open>i + 1\<close> (both at
  least \<open>startIndex\<close>) carry the same time tag \<open>T\<close>, no later record carries it, and the
  query for \<open>T\<close> requires no switch (the condition of \<^verbatim>\<open>checkAndChangeLoads\<close> evaluates to
  false: \<open>T\<close> is before the pending activation time and before the time tag of the last
  record), then \<^verbatim>\<open>getStateAtTime\<close> and \<^verbatim>\<open>binaryGetStateAtTime\<close> both return the record at
  \<open>i + 1\<close> and leave the cursor there.
\<close>

theorem tie_resolves_to_later_index:
  assumes ord: "timeOrdered self"
    and cur: "startIndex \<le> currentStateIndex self"
             "currentStateIndex self < int (length (svrdb self))"
    and i: "startIndex \<le> i" "i + 1 < int (length (svrdb self))"
    and tie: "timeAt self i = T" "timeAt self (i + 1) = T"
    and last: "\<forall>k. i + 1 < k \<and> k < int (length (svrdb self)) \<longrightarrow> timeAt self k \<noteq> T"
    and stay: "switchRequired self (Some T) None = Inr False"
  shows "getStateAtTime fs self T
           = (Inr (svrdb self ! nat (i + 1)), self\<lparr>currentStateIndex := i + 1\<rparr>)
       \<and> binaryGetStateAtTime fs self T
           = (Inr (svrdb self ! nat (i + 1)), self\<lparr>currentStateIndex := i + 1\<rparr>)"
proof -
  let ?n = "int (length (svrdb self))"
  have after: "T < timeAt self k" if "i + 1 < k" "k < ?n" for k
  proof -
    have "timeAt self (i + 1) \<le> timeAt self k"
      using ord i that unfolding timeOrdered_def by simp
    moreover have "timeAt self k \<noteq> T" using last that by simp
    ultimately show ?thesis using tie(2) by simp
  qed
  have r: "lastAtOrBefore self T (i + 1)"
    using i tie(2) after by (simp add: lastAtOrBefore_def)
  have lin: "linearTime self T = Inr (i + 1)" using ord cur r by (rule linearTime_exact)
  have bin: "binaryTime self T = Inr (i + 1)" using ord r by (rule binaryTime_exact)
  have idx: "py_index (svrdb self) (i + 1) = Inr (svrdb self ! nat (i + 1))"
    using i by (simp add: py_index_def startIndex_def)
  have chk: "checkAndChangeLoads fs self (Some T) None = (Inr (), self)"
    using stay by (simp add: checkAndChangeLoads_def)
  show ?thesis
    using chk lin bin idx
    by (simp add: getStateAtTime_def binaryGetStateAtTime_def storeAndReturn_def)
qed

theorem tie_resolves_to_later_index_witness:
  "timeAt trackerTie 41 = ''2024:100:00:00:00.000''
   \<and> timeAt trackerTie (41 + 1) = ''2024:100:00:00:00.000''
   \<and> getStateAtTime fsA trackerTie ''2024:100:00:00:00.000''
       = (Inr (svrdb trackerTie ! nat (41 + 1)), trackerTie\<lparr>currentStateIndex := 41 + 1\<rparr>)
   \<and> binaryGetStateAtTime fsA trackerTie ''2024:100:00:00:00.000''
       = (Inr (svrdb trackerTie ! nat (41 + 1)), trackerTie\<lparr>currentStateIndex := 41 + 1\<rparr>)"
proof -
  have srt: "sorted (map (take 21) (drop 40 (svrdb trackerTie)))" by code_simp
  have ord: "timeOrdered trackerTie" using srt by (rule timeOrdered_sorted)
  have cur: "startIndex \<le> currentStateIndex trackerTie"
            "currentStateIndex trackerTie < int (length (svrdb trackerTie))"
    by code_simp+
  have i: "startIndex \<le> 41" "41 + 1 < int (length (svrdb trackerTie))" by code_simp+
  have tie: "timeAt trackerTie 41 = ''2024:100:00:00:00.000''"
            "timeAt trackerTie (41 + 1) = ''2024:100:00:00:00.000''" by code_simp+
  have t43: "timeAt trackerTie 43 \<noteq> ''2024:100:00:00:00.000''" by code_simp
  have len: "int (length (svrdb trackerTie)) = 44" by code_simp
  have last: "\<forall>k. 41 + 1 < k \<and> k < int (length (svrdb trackerTie))
                \<longrightarrow> timeAt trackerTie k \<noteq> ''2024:100:00:00:00.000''"
  proof (intro allI impI)
    fix k :: int
    assume "41 + 1 < k \<and> k < int (length (svrdb trackerTie))"
    then have "k = 43" using len by simp
    with t43 show "timeAt trackerTie k \<noteq> ''2024:100:00:00:00.000''" by simp
  qed
  have stay: "switchRequired trackerTie (Some ''2024:100:00:00:00.000'') None = Inr False"
    by code_simp
  show ?thesis
    using tie tie_resolves_to_later_index [OF ord cur i tie last stay, where fs = fsA] by simp
qed

section \<open>The backward scan at the start of a load\<close>

text \<open>
  Claim C1 says that the linear and the binary strategy resolve the same index on every
  well-formed load, for every cursor in \<open>[startIndex, len - 1]\<close>. On load A (ordered in time
  and in counter from index 40 on, nothing to switch to yet), with the cursor at
  \<open>startIndex = 40\<close> and a query just before the record at 40, the backward scan of
  \<^verbatim>\<open>getStateAtTime\<close> starts at \<open>i = 39\<close>, its loop \<^verbatim>\<open>while i > startIndex\<close> is not entered,
  and index 39 is resolved; \<^verbatim>\<open>binaryGetStateAtTime\<close> resolves index 40. The same happens
  by counter.
\<close>

theorem linear_binary_differ_before_start:
  "sorted (map (take 21) (drop 40 loadA))
   \<and> map (stateVCDU trackerA) [40, 41, 42] = [Inr 5000000, Inr 5000100, Inr 5000200]
   \<and> switchRequired trackerA (Some ''2024:098:23:30:00.000'') None = Inr False
   \<and> getStateAtTime fsA trackerA ''2024:098:23:30:00.000''
       = (Inr ''2024:098:23:00:00.000 4990000 HRC'', trackerA\<lparr>currentStateIndex := 39\<rparr>)
   \<and> binaryGetStateAtTime fsA trackerA ''2024:098:23:30:00.000''
       = (Inr ''2024:099:00:00:00.000 5000000 HRC'', trackerA\<lparr>currentStateIndex := 40\<rparr>)
   \<and> switchRequired trackerA None (Some 4999000) = Inr False
   \<and> getStateAtVCDU fsA trackerA 4999000
       = (Inr ''2024:098:23:00:00.000 4990000 HRC'', trackerA\<lparr>currentStateIndex := 39\<rparr>)
   \<and> binaryGetStateAtVCDU fsA trackerA 4999000
       = (Inr ''2024:099:00:00:00.000 5000000 HRC'', trackerA\<lparr>currentStateIndex := 40\<rparr>)"
  by code_simp

text \<open>
  Claim C2 says that the resolved index always lies in \<open>[startIndex, len - 1]\<close> and that a
  record below \<open>startIndex\<close> is never returned, also when its time tag or counter equals the
  query value. On load A with the cursor at \<open>startIndex\<close>, a query for exactly the time tag
  (or the counter) of the carried-over record at index 39 makes the linear strategy return
  that record and leave the cursor at 39.
\<close>

theorem linear_returns_carried_over_record:
  "stateTime trackerA 39 = Inr ''2024:098:23:00:00.000''
   \<and> stateVCDU trackerA 39 = Inr 4990000
   \<and> currentStateIndex trackerA = startIndex
   \<and> getStateAtTime fsA trackerA ''2024:098:23:00:00.000''
       = (Inr ''2024:098:23:00:00.000 4990000 HRC'', trackerA\<lparr>currentStateIndex := 39\<rparr>)
   \<and> getStateAtVCDU fsA trackerA 4990000
       = (Inr ''2024:098:23:00:00.000 4990000 HRC'', trackerA\<lparr>currentStateIndex := 39\<rparr>)
   \<and> 39 < startIndex"
  by code_simp

text \<open>
  Claim C7 says that within one load non-decreasing query times resolve non-decreasing
  indices. On load A with the cursor at 42, the time 23:30 of day 098 resolves index 40;
  the later time 23:45 then resolves index 39. By counter, 4999000 and then 4999500 do
  the same. No load switch takes place in these calls.
\<close>

theorem linear_index_decreases_before_start:
  "''2024:098:23:30:00.000'' \<le> ''2024:098:23:45:00.000''
   \<and> getStateAtTime fsA (trackerA\<lparr>currentStateIndex := 42\<rparr>) ''2024:098:23:30:00.000''
       = (Inr ''2024:099:00:00:00.000 5000000 HRC'', trackerA\<lparr>currentStateIndex := 40\<rparr>)
   \<and> getStateAtTime fsA (trackerA\<lparr>currentStateIndex := 40\<rparr>) ''2024:098:23:45:00.000''
       = (Inr ''2024:098:23:00:00.000 4990000 HRC'', trackerA\<lparr>currentStateIndex := 39\<rparr>)
   \<and> 0 \<le> deltaVCDU 4999000 4999500
   \<and> getStateAtVCDU fsA (trackerA\<lparr>currentStateIndex := 42\<rparr>) 4999000
       = (Inr ''2024:099:00:00:00.000 5000000 HRC'', trackerA\<lparr>currentStateIndex := 40\<rparr>)
   \<and> getStateAtVCDU fsA (trackerA\<lparr>currentStateIndex := 40\<rparr>) 4999500
       = (Inr ''2024:098:23:00:00.000 4990000 HRC'', trackerA\<lparr>currentStateIndex := 39\<rparr>)"
  by code_simp

section \<open>The switch condition by counter\<close>

text \<open>
  Claim C3 says that a counter query \<open>V\<close> requires a switch exactly when
  \<open>deltaVCDU lastCounter V \<ge> 0\<close> or \<open>deltaVCDU activationCounter V \<ge> 0\<close>. The code compares
  with plain \<^verbatim>\<open>>=\<close>. In the scenario of the claim (last counter 16777210, pending load
  activating at counter 5) the query \<open>V = 16777150\<close>, slightly behind the last record, has
  both differences negative, yet \<open>16777150 \<ge> 5\<close> makes the code switch to the pending load
  and answer from it. Left alone, the linear strategy resolves index 41 of the active load.
\<close>

theorem plain_comparison_switches_early:
  "stateVCDU trackerW 42 = Inr 16777210
   \<and> nextFirstVCDU trackerW = Some 5
   \<and> deltaVCDU 16777210 16777150 = - 60
   \<and> deltaVCDU 5 16777150 = - 71
   \<and> switchRequired trackerW None (Some 16777150) = Inr True
   \<and> currentLoads (snd (getStateAtVCDU (fsWith loadW') trackerW 16777150)) = dirB
   \<and> fst (getStateAtVCDU (fsWith loadW') trackerW 16777150) = Inr ''2024:106:00:00:16.000 5 HRC''
   \<and> linearVCDU trackerW 16777150 = Inr 41"
  by code_simp

text \<open>
  The query \<open>V = 10\<close> of the same scenario does switch, once, and is answered from the
  new load.
\<close>

lemma wraparound_scenario_switches_once:
  "deltaVCDU 16777210 10 = 16
   \<and> switchRequired trackerW None (Some 10) = Inr True
   \<and> currentLoads (snd (getStateAtVCDU (fsWith loadW') trackerW 10)) = dirB
   \<and> svrdb (snd (getStateAtVCDU (fsWith loadW') trackerW 10)) = loadW'
   \<and> currentStateIndex (snd (getStateAtVCDU (fsWith loadW') trackerW 10)) = 40
   \<and> fst (getStateAtVCDU (fsWith loadW') trackerW 10) = Inr ''2024:106:00:00:16.000 5 HRC''"
  by code_simp

section \<open>Crossing the boundary without a successor\<close>

text \<open>
  When the condition of \<^verbatim>\<open>checkAndChangeLoads\<close> evaluates to true and no pending load is
  set, each of the four queries raises \<^verbatim>\<open>CurrentLoadException("No new loads found")\<close>
  and leaves the whole object, in particular \<open>svrdb\<close>, \<open>currentLoads\<close> and
  \<open>currentStateIndex\<close>, as it was. The condition can only be evaluated once
  \<open>nextFirstTime\<close> and \<open>nextFirstVCDU\<close> have been assigned, that is, after some
  candidate has been installed.
\<close>

lemma boundary_without_pending_raises:
  assumes "\<not> truthy (nextLoads self)"
  shows "(switchRequired self (Some atTime) None = Inr True \<longrightarrow>
            getStateAtTime fs self atTime = (Inl noNewLoads, self)
            \<and> binaryGetStateAtTime fs self atTime = (Inl noNewLoads, self))
       \<and> (switchRequired self None (Some atVCDU) = Inr True \<longrightarrow>
            getStateAtVCDU fs self atVCDU = (Inl noNewLoads, self)
            \<and> binaryGetStateAtVCDU fs self atVCDU = (Inl noNewLoads, self))"
  using assms
  by (simp add: getStateAtTime_def binaryGetStateAtTime_def getStateAtVCDU_def
      binaryGetStateAtVCDU_def checkAndChangeLoads_def)

lemma boundary_without_pending_raises_example:
  "\<not> truthy (nextLoads trackerB)
   \<and> switchRequired trackerB (Some ''2024:113:00:00:00.000'') None = Inr True
   \<and> switchRequired trackerB None (Some 5000400) = Inr True
   \<and> getStateAtTime fsA trackerB ''2024:113:00:00:00.000'' = (Inl noNewLoads, trackerB)
   \<and> binaryGetStateAtTime fsA trackerB ''2024:113:00:00:00.000'' = (Inl noNewLoads, trackerB)
   \<and> getStateAtVCDU fsA trackerB 5000400 = (Inl noNewLoads, trackerB)
   \<and> binaryGetStateAtVCDU fsA trackerB 5000400 = (Inl noNewLoads, trackerB)"
proof -
  have np: "\<not> truthy (nextLoads trackerB)" by code_simp
  have t: "switchRequired trackerB (Some ''2024:113:00:00:00.000'') None = Inr True"
    by code_simp
  have v: "switchRequired trackerB None (Some 5000400) = Inr True" by code_simp
  show ?thesis
    using np t v
      boundary_without_pending_raises
        [OF np, where atTime = "''2024:113:00:00:00.000''" and atVCDU = 5000400 and fs = fsA]
    by simp
qed

text \<open>
  Claim C4 says that every query whose value crosses the transition boundary while no
  pending candidate is set raises the "No new loads found" error and leaves the active
  load and the cursor unchanged. On the tracker as construction leaves it when no newer
  directory exists (\<^verbatim>\<open>slurpState\<close> on load A, then \<^verbatim>\<open>checkForNewLoads\<close> finding nothing),
  a query at the time tag or the counter of the last record has run past the end of the
  load, and nothing is pending. The condition of \<^verbatim>\<open>checkAndChangeLoads\<close> first reads
  \<^verbatim>\<open>self.nextFirstTime\<close> (or \<^verbatim>\<open>self.nextFirstVCDU\<close>), which was never assigned: the query
  raises \<^verbatim>\<open>AttributeError\<close>, not the "No new loads found" error. The object is unchanged.
\<close>

theorem unassigned_boundary_raises_attribute_error:
  "slurpState fsQuiet trackerFresh dirA = Inr trackerFresh
   \<and> checkForNewLoads fsQuiet trackerFresh = Inr trackerFresh
   \<and> nextLoads trackerFresh = None
   \<and> stateTime trackerFresh 42 = Inr ''2024:106:00:00:00.000''
   \<and> stateVCDU trackerFresh 42 = Inr 5000200
   \<and> int (length (svrdb trackerFresh)) - 1 = 42
   \<and> getStateAtTime fsQuiet trackerFresh ''2024:106:00:00:00.000''
       = (Inl AttributeError, trackerFresh)
   \<and> binaryGetStateAtTime fsQuiet trackerFresh ''2024:106:00:00:00.000''
       = (Inl AttributeError, trackerFresh)
   \<and> getStateAtVCDU fsQuiet trackerFresh 5000200 = (Inl AttributeError, trackerFresh)
   \<and> binaryGetStateAtVCDU fsQuiet trackerFresh 5000200 = (Inl AttributeError, trackerFresh)
   \<and> AttributeError \<noteq> noNewLoads"
  by code_simp

lemma checkForNewLoads_boundary:
  assumes "checkForNewLoads fs s = Inr s'"
  shows "s' = s
       \<or> (\<exists>nl st ft fv. firstTimeVCDU fs nl = Inr (Some (ft, fv)) \<and> fv \<noteq> 0
             \<and> s' = s\<lparr>nextLoads := Some nl, nextStart := st, nextFirstTime := Some ft,
                       nextFirstVCDU := Some fv\<rparr>)"
  using assms unfolding checkForNewLoads_def
  by (auto split: sum.splits list.splits option.splits if_splits prod.splits)

text \<open>
  Claim C10: a switch to the pending load \<open>nl\<close> after which \<^verbatim>\<open>checkForNewLoads\<close> finds no
  newer directory leaves \<open>nextLoads = None\<close> while \<open>nextFirstTime\<close> and \<open>nextFirstVCDU\<close>
  keep the boundary \<open>ft\<close>, \<open>fv\<close> of the load just activated. From then on every query for
  a non-empty time at or after \<open>ft\<close>, and every query for a counter \<open>V \<ge> fv\<close>, raises
  \<^verbatim>\<open>CurrentLoadException("No new loads found")\<close> and resolves nothing, whatever the file
  system holds. By \<open>checkForNewLoads_boundary\<close> the boundary that \<^verbatim>\<open>checkForNewLoads\<close>
  stores is the time tag and counter of the first record of the candidate.
\<close>

theorem stale_boundary_after_switch:
  assumes pend: "nextLoads self = Some nl" "nl \<noteq> []"
    and bnd: "nextFirstTime self = Some ft" "nextFirstVCDU self = Some fv"
    and req: "switchRequired self atTime atVCDU = Inr True"
    and slurp: "slurpState fs self nl = Inr s1"
    and none: "getRecentLoads fs s1 nl = Inr []"
  shows "checkAndChangeLoads fs self atTime atVCDU = (Inr (), s1)
       \<and> currentLoads s1 = nl \<and> nextLoads s1 = None
       \<and> nextFirstTime s1 = Some ft \<and> nextFirstVCDU s1 = Some fv
       \<and> (\<forall>fs' T. T \<noteq> [] \<and> ft \<le> T \<longrightarrow>
             getStateAtTime fs' s1 T = (Inl noNewLoads, s1)
             \<and> binaryGetStateAtTime fs' s1 T = (Inl noNewLoads, s1))
       \<and> (\<forall>fs' V. fv \<le> V \<longrightarrow>
             getStateAtVCDU fs' s1 V = (Inl noNewLoads, s1)
             \<and> binaryGetStateAtVCDU fs' s1 V = (Inl noNewLoads, s1))"
proof -
  from slurp have s1: "currentLoads s1 = nl" "nextLoads s1 = None"
      "nextFirstTime s1 = Some ft" "nextFirstVCDU s1 = Some fv"
    using bnd by (auto simp: slurpState_def split: sum.splits)
  have plan: "checkForNewLoads fs s1 = Inr s1"
    using s1 none by (simp add: checkForNewLoads_def truthy_def)
  have chk: "checkAndChangeLoads fs self atTime atVCDU = (Inr (), s1)"
    using req pend slurp plan by (simp add: checkAndChangeLoads_def truthy_def)
  have np: "\<not> truthy (nextLoads s1)" using s1 by (simp add: truthy_def)
  have bt: "switchRequired s1 (Some T) None = Inr True" if "T \<noteq> []" "ft \<le> T" for T
    using that s1 by (simp add: switchRequired_def)
  have bv: "switchRequired s1 None (Some V) = Inr True" if "fv \<le> V" for V
    using that s1 by (simp add: switchRequired_def)
  have qt: "getStateAtTime fs' s1 T = (Inl noNewLoads, s1)
            \<and> binaryGetStateAtTime fs' s1 T = (Inl noNewLoads, s1)"
    if "T \<noteq> []" "ft \<le> T" for fs' T
    using bt[OF that] np
    by (simp add: getStateAtTime_def binaryGetStateAtTime_def checkAndChangeLoads_def)
  have qv: "getStateAtVCDU fs' s1 V = (Inl noNewLoads, s1)
            \<and> binaryGetStateAtVCDU fs' s1 V = (Inl noNewLoads, s1)"
    if "fv \<le> V" for fs' V
    using bv[OF that] np
    by (simp add: getStateAtVCDU_def binaryGetStateAtVCDU_def checkAndChangeLoads_def)
  show ?thesis
    using chk s1 qt qv by blast
qed

theorem stale_boundary_after_switch_witness:
  "checkForNewLoads fsA trackerFresh = Inr trackerA
   \<and> firstTimeVCDU fsA dirB = Inr (Some (''2024:106:00:00:00.000'', 5000200))
   \<and> checkAndChangeLoads fsA trackerA (Some ''2024:106:00:00:00.000'') None = (Inr (), trackerB)
   \<and> nextLoads trackerB = None
   \<and> stateTime trackerB 41 = Inr ''2024:109:00:00:00.000''
   \<and> getStateAtTime fsA trackerB ''2024:109:00:00:00.000'' = (Inl noNewLoads, trackerB)
   \<and> binaryGetStateAtVCDU fsA trackerB 5000300 = (Inl noNewLoads, trackerB)"
proof -
  have plan: "checkForNewLoads fsA trackerFresh = Inr trackerA" by code_simp
  have first: "firstTimeVCDU fsA dirB = Inr (Some (''2024:106:00:00:00.000'', 5000200))"
    by code_simp
  have pend: "nextLoads trackerA = Some dirB" "dirB \<noteq> []" by code_simp+
  have bnd: "nextFirstTime trackerA = Some ''2024:106:00:00:00.000''"
            "nextFirstVCDU trackerA = Some 5000200" by code_simp+
  have req: "switchRequired trackerA (Some ''2024:106:00:00:00.000'') None = Inr True"
    by code_simp
  have slurp: "slurpState fsA trackerA dirB = Inr trackerB" by code_simp
  have none: "getRecentLoads fsA trackerB dirB = Inr []" by code_simp
  have rec: "stateTime trackerB 41 = Inr ''2024:109:00:00:00.000''" by code_simp
  have t: "''2024:109:00:00:00.000'' \<noteq> [] \<and> ''2024:106:00:00:00.000'' \<le> ''2024:109:00:00:00.000''"
    by code_simp
  have v: "(5000200::int) \<le> 5000300" by simp
  note main = stale_boundary_after_switch [OF pend bnd req slurp none]
  from main have np: "nextLoads trackerB = None" by blast
  from main have chk:
    "checkAndChangeLoads fsA trackerA (Some ''2024:106:00:00:00.000'') None = (Inr (), trackerB)"
    by blast
  from main t have q1:
    "getStateAtTime fsA trackerB ''2024:109:00:00:00.000'' = (Inl noNewLoads, trackerB)"
    by blast
  from main v have q2: "binaryGetStateAtVCDU fsA trackerB 5000300 = (Inl noNewLoads, trackerB)"
    by blast
  show ?thesis
    using plan first chk np rec q1 q2 by blast
qed

section \<open>Discarding a candidate in checkForNewLoads\<close>

text \<open>
  Claim C8 says that the pending transition is installed if and only if both reads
  succeed, also when the first record has counter 0, and that a failed read raises nothing.
  With directory B newer than the active directory A: when B's first record has counter 0,
  both reads succeed and nothing is installed, because \<^verbatim>\<open>if nextStart and firstVCDU\<close> tests
  the counter for truth; when B's state vector file has no time-tagged line,
  \<^verbatim>\<open>firstTimeVCDU\<close> returns \<^verbatim>\<open>None\<close> and unpacking it raises \<^verbatim>\<open>TypeError\<close>. With a nonzero first
  counter the transition is installed.
\<close>

theorem zero_counter_candidate_discarded:
  "getRecentLoads (fsWith loadZ) trackerFresh dirA = Inr [dirB]
   \<and> startTime (fsWith loadZ) dirB = Inr (Some ''2024:106:00:10:00.000'')
   \<and> firstTimeVCDU (fsWith loadZ) dirB = Inr (Some (''2024:106:00:00:00.000'', 0))
   \<and> checkForNewLoads (fsWith loadZ) trackerFresh = Inr trackerFresh
   \<and> nextLoads trackerFresh = None
   \<and> firstTimeVCDU (fsWith loadE) dirB = Inr None
   \<and> checkForNewLoads (fsWith loadE) trackerFresh = Inl TypeError
   \<and> checkForNewLoads (fsWith loadB) trackerFresh
       = Inr (trackerFresh\<lparr>nextLoads := Some dirB, nextStart := Some ''2024:106:00:10:00.000'',
                nextFirstTime := Some ''2024:106:00:00:00.000'', nextFirstVCDU := Some 5000200\<rparr>)"
  by code_simp

section \<open>The directory scanner\<close>

lemma map_of_dict_set: "map_of (dict_set k v d) = (map_of d)(k \<mapsto> v)"
  by (induction d) (auto simp: fun_eq_iff)

lemma keys_dict_set: "fst ` set (dict_set k v d) = insert k (fst ` set d)"
  by (induction d) auto

lemma distinct_dict_set:
  "distinct (map fst d) \<Longrightarrow> distinct (map fst (dict_set k v d))"
proof (induction d)
  case Nil
  then show ?case by simp
next
  case (Cons p d)
  have "fst p \<notin> fst ` set (dict_set k v d)" if "fst p \<noteq> k"
    using Cons.prems that by (simp add: keys_dict_set)
  with Cons show ?case by auto
qed

lemma values_dict_set: "set (dict_set k v d) \<subseteq> insert (k, v) (set d)"
  by (induction d) auto

lemma keyed_dict_set:
  assumes "keyed d"
  shows "keyed (dict_set (lrdate_of t) t d)"
proof -
  have "distinct (map fst (dict_set (lrdate_of t) t d))"
    using assms by (simp add: keyed_def distinct_dict_set)
  moreover have "fst p = lrdate_of (snd p)" if "p \<in> set (dict_set (lrdate_of t) t d)" for p
  proof -
    from that values_dict_set have "p = (lrdate_of t, t) \<or> p \<in> set d" by fastforce
    then show ?thesis using assms by (auto simp: keyed_def)
  qed
  ultimately show ?thesis by (simp add: keyed_def)
qed

lemma best_step:
  assumes "best m A"
  shows "best (case m (lrdate_of t) of
                 None \<Rightarrow> m(lrdate_of t \<mapsto> t)
               | Some u \<Rightarrow> if u < t then m(lrdate_of t \<mapsto> t) else m) (insert t A)"
proof (cases "m (lrdate_of t)")
  case None
  have no: "lrdate_of a \<noteq> lrdate_of t" if "a \<in> A" for a
    using assms that None unfolding best_def by force
  show ?thesis
    using assms None no unfolding best_def by (auto split: if_splits)
next
  case (Some u)
  show ?thesis
  proof (cases "u < t")
    case True
    have dom: "a \<le> t" if "a \<in> A" "lrdate_of a = lrdate_of t" for a
    proof -
      from assms that Some have "a \<le> u" unfolding best_def by force
      with True show ?thesis by simp
    qed
    show ?thesis
      using assms Some True dom unfolding best_def by (auto split: if_splits)
  next
    case False
    then have "t \<le> u" by simp
    then show ?thesis
      using assms Some False unfolding best_def by (auto split: if_splits)
  qed
qed

lemma prune_best:
  assumes "keyed acc" "best (map_of acc) A"
  shows "keyed (prune acc ts) \<and> best (map_of (prune acc ts)) (A \<union> set ts)"
  using assms
proof (induction ts arbitrary: acc A)
  case Nil
  then show ?case by simp
next
  case (Cons t ts)
  let ?acc = "case map_of acc (lrdate_of t) of
                None \<Rightarrow> dict_set (lrdate_of t) t acc
              | Some u \<Rightarrow> if u < t then dict_set (lrdate_of t) t acc else acc"
  have k: "keyed ?acc"
    using Cons.prems(1) by (auto simp: keyed_dict_set split: option.splits)
  have "map_of ?acc = (case map_of acc (lrdate_of t) of
                 None \<Rightarrow> (map_of acc)(lrdate_of t \<mapsto> t)
               | Some u \<Rightarrow> if u < t then (map_of acc)(lrdate_of t \<mapsto> t) else map_of acc)"
    by (simp add: map_of_dict_set split: option.splits)
  with best_step[OF Cons.prems(2), of t] have b: "best (map_of ?acc) (insert t A)"
    by simp
  from Cons.IH[OF k b] show ?case by (simp add: Let_def)
qed

lemma best_ran:
  assumes "best m A"
  shows "ran m = latest_per_date A"
proof (intro set_eqI iffI)
  from assms have h1: "\<And>a. a \<in> A \<Longrightarrow> \<exists>v. m (lrdate_of a) = Some v \<and> a \<le> v"
    and h2: "\<And>k v. m k = Some v \<Longrightarrow> v \<in> A \<and> lrdate_of v = k"
    unfolding best_def by blast+
  {
    fix x
    assume "x \<in> ran m"
    then obtain k where mk: "m k = Some x" by (auto simp: ran_def)
    from h2[OF mk] have xa: "x \<in> A" and xk: "lrdate_of x = k" by simp_all
    have "u \<le> x" if "u \<in> A" "lrdate_of u = lrdate_of x" for u
    proof -
      from h1[OF that(1)] obtain v where "m (lrdate_of u) = Some v" "u \<le> v" by blast
      with that(2) xk mk show ?thesis by simp
    qed
    with xa show "x \<in> latest_per_date A" by (simp add: latest_per_date_def)
  }
  {
    fix x
    assume "x \<in> latest_per_date A"
    then have xa: "x \<in> A" and mx: "\<And>u. u \<in> A \<Longrightarrow> lrdate_of u = lrdate_of x \<Longrightarrow> u \<le> x"
      by (simp_all add: latest_per_date_def)
    from h1[OF xa] obtain v where v: "m (lrdate_of x) = Some v" "x \<le> v" by blast
    from h2[OF v(1)] have "v \<in> A" "lrdate_of v = lrdate_of x" by simp_all
    then have "v \<le> x" by (rule mx)
    with v(2) have "v = x" by simp
    with v(1) show "x \<in> ran m" by (auto simp: ran_def)
  }
qed

lemma prune_selection:
  "set (map snd (prune [] ts)) = latest_per_date (set ts)
   \<and> distinct (map lrdate_of (map snd (prune [] ts)))
   \<and> (\<forall>a \<in> set ts. \<exists>v \<in> set (map snd (prune [] ts)). lrdate_of v = lrdate_of a \<and> a \<le> v)"
proof -
  have "keyed []" "best (map_of []) {}" by (simp_all add: keyed_def best_def)
  from prune_best[OF this, of ts]
  have k: "keyed (prune [] ts)" and b: "best (map_of (prune [] ts)) (set ts)" by simp_all
  from k have d: "distinct (map fst (prune [] ts))" by (simp add: keyed_def)
  have rn: "set (map snd (prune [] ts)) = ran (map_of (prune [] ts))"
    using d by (simp add: ran_distinct)
  also have "\<dots> = latest_per_date (set ts)" using b by (rule best_ran)
  finally have s: "set (map snd (prune [] ts)) = latest_per_date (set ts)" .
  have e: "map lrdate_of (map snd (prune [] ts)) = map fst (prune [] ts)"
    using k by (simp add: keyed_def)
  have c: "\<exists>v \<in> set (map snd (prune [] ts)). lrdate_of v = lrdate_of a \<and> a \<le> v"
    if "a \<in> set ts" for a
  proof -
    from b that obtain v where v: "map_of (prune [] ts) (lrdate_of a) = Some v" "a \<le> v"
      unfolding best_def by blast
    from b v(1) have "lrdate_of v = lrdate_of a" unfolding best_def by blast
    moreover from v(1) have "v \<in> ran (map_of (prune [] ts))" by (rule ranI)
    ultimately show ?thesis using v(2) rn by blast
  qed
  show ?thesis
  proof (intro conjI ballI)
    show "set (map snd (prune [] ts)) = latest_per_date (set ts)" by (rule s)
    show "distinct (map lrdate_of (map snd (prune [] ts)))" unfolding e by (rule d)
    show "\<exists>v \<in> set (map snd (prune [] ts)). lrdate_of v = lrdate_of a \<and> a \<le> v"
      if "a \<in> set ts" for a using that by (rule c)
  qed
qed

lemma captured_set: "set (List.map_filter lrdre_match rawlist) = captured rawlist"
  by (induction rawlist) (auto simp: captured_def split: option.splits)

lemma mtimes_Inr:
  "mtimes f xs = Inr kx \<Longrightarrow> map snd kx = xs \<and> (\<forall>p \<in> set kx. f (snd p) = Inr (fst p))"
  by (induction xs arbitrary: kx) (auto split: sum.splits)

lemma mtimes_total:
  "\<forall>x \<in> set xs. \<exists>m. f x = Inr m \<Longrightarrow> \<exists>kx. mtimes f xs = Inr kx"
  by (induction xs) (auto split: sum.splits)

lemma sort_recent_mset: "mset (sort_recent kx) = mset (map snd kx)"
proof -
  have "mset (rev (sort_key fst (rev kx))) = mset kx" by simp
  then have "mset (map snd (rev (sort_key fst (rev kx)))) = mset (map snd kx)"
    by (metis mset_map)
  then show ?thesis by (simp only: sort_recent_def)
qed

lemma sort_recent_descending:
  assumes "i < j" "j < length (sort_recent kx)"
  shows "\<exists>p q. p \<in> set kx \<and> q \<in> set kx \<and> sort_recent kx ! i = snd p
               \<and> sort_recent kx ! j = snd q \<and> fst q \<le> fst p"
proof -
  let ?L = "rev (sort_key fst (rev kx))"
  have len: "length ?L = length (sort_recent kx)" by (simp add: sort_recent_def)
  have setL: "set ?L = set kx" by simp
  have "sorted (map fst (sort_key fst (rev kx)))" by (rule sorted_sort_key)
  then have "sorted (rev (map fst ?L))" by (simp add: rev_map)
  then have "map fst ?L ! j \<le> map fst ?L ! i"
    using assms len by (intro sorted_rev_nth_mono) simp_all
  then have le: "fst (?L ! j) \<le> fst (?L ! i)" using assms len by simp
  have "?L ! i \<in> set ?L" "?L ! j \<in> set ?L" using assms len by (simp_all del: set_rev set_sort)
  then have mem: "?L ! i \<in> set kx" "?L ! j \<in> set kx" using setL by simp_all
  have "sort_recent kx ! i = snd (?L ! i)" "sort_recent kx ! j = snd (?L ! j)"
    using assms len by (simp_all add: sort_recent_def)
  with mem le show ?thesis by blast
qed

lemma getRecentLoads_selection:
  assumes find: "run_find fs (loadReviewDir self) refFile = (0, out, err)"
    and res: "getRecentLoads fs self refFile = Inr res"
  shows "set res = latest_per_date (captured (split_nl out))"
    and "distinct (map lrdate_of res)"
    and "\<forall>i j. i < j \<and> j < length res \<longrightarrow>
           (\<exists>mi mj. getmtime fs (res ! i) = Inr mi \<and> getmtime fs (res ! j) = Inr mj \<and> mj \<le> mi)"
    and "\<forall>d \<in> captured (split_nl out). \<exists>t \<in> set res. lrdate_of t = lrdate_of d \<and> d \<le> t"
proof -
  let ?dirlist = "List.map_filter lrdre_match (split_nl out)"
  let ?sel = "map snd (prune [] ?dirlist)"
  from find res obtain kx where kx: "mtimes (getmtime fs) ?sel = Inr kx"
    and r: "res = sort_recent kx"
    by (auto simp: getRecentLoads_def Let_def split: sum.splits)
  from mtimes_Inr[OF kx] have snd: "map snd kx = ?sel"
    and mt: "\<And>p. p \<in> set kx \<Longrightarrow> getmtime fs (snd p) = Inr (fst p)" by simp_all
  have ms: "mset res = mset ?sel" unfolding r sort_recent_mset snd ..
  note ps = prune_selection[of ?dirlist, unfolded captured_set]
  from ps have sel: "set ?sel = latest_per_date (captured (split_nl out))"
    by (rule conjunct1)
  from ps have dis: "distinct (map lrdate_of ?sel)"
    by (rule conjunct1[OF conjunct2])
  from ps have cov: "\<forall>a \<in> captured (split_nl out).
                      \<exists>v \<in> set ?sel. lrdate_of v = lrdate_of a \<and> a \<le> v"
    by (rule conjunct2[OF conjunct2])
  from ms have rs: "set res = set ?sel" by (rule mset_eq_setD)
  with sel show "set res = latest_per_date (captured (split_nl out))" by simp
  from cov show "\<forall>d \<in> captured (split_nl out). \<exists>t \<in> set res. lrdate_of t = lrdate_of d \<and> d \<le> t"
    unfolding rs .
  from ms have "mset (map lrdate_of res) = mset (map lrdate_of ?sel)" by (metis mset_map)
  then have "distinct (map lrdate_of res) = distinct (map lrdate_of ?sel)"
    by (rule mset_eq_imp_distinct_iff)
  with dis show "distinct (map lrdate_of res)" by simp
  show "\<forall>i j. i < j \<and> j < length res \<longrightarrow>
           (\<exists>mi mj. getmtime fs (res ! i) = Inr mi \<and> getmtime fs (res ! j) = Inr mj \<and> mj \<le> mi)"
  proof (intro allI impI)
    fix i j
    assume "i < j \<and> j < length res"
    then have "i < j" "j < length (sort_recent kx)" using r by simp_all
    from sort_recent_descending[OF this] obtain p q where
      "p \<in> set kx" "q \<in> set kx" "res ! i = snd p" "res ! j = snd q" "fst q \<le> fst p"
      using r by blast
    with mt show "\<exists>mi mj. getmtime fs (res ! i) = Inr mi \<and> getmtime fs (res ! j) = Inr mj
                    \<and> mj \<le> mi" by simp
  qed
qed

lemma getRecentLoads_returns:
  assumes find: "run_find fs (loadReviewDir self) refFile = (0, out, err)"
    and mt: "\<forall>d \<in> latest_per_date (captured (split_nl out)). \<exists>m. getmtime fs d = Inr m"
  shows "\<exists>res. getRecentLoads fs self refFile = Inr res"
proof -
  let ?dirlist = "List.map_filter lrdre_match (split_nl out)"
  let ?sel = "map snd (prune [] ?dirlist)"
  from prune_selection[of ?dirlist, unfolded captured_set]
  have "set ?sel = latest_per_date (captured (split_nl out))" by (rule conjunct1)
  with mt have "\<forall>x \<in> set ?sel. \<exists>m. getmtime fs x = Inr m" by simp
  then obtain kx where "mtimes (getmtime fs) ?sel = Inr kx"
    using mtimes_total by blast
  with find show ?thesis by (simp add: getRecentLoads_def Let_def)
qed

text \<open>
  In terms of the code's own notions (the names the pattern captures, prefix match and
  truncation included, and the key \<^verbatim>\<open>t[-8:-1]\<close>): when \<^verbatim>\<open>find\<close> succeeds and the modification
  time of every selected name can be read, \<^verbatim>\<open>getRecentLoads\<close> returns exactly the greatest
  captured name of each key, one per key, in non-increasing modification time, and the same
  set for any reordering of the listing.
\<close>

lemma getRecentLoads_latest_per_date:
  assumes find: "run_find fs (loadReviewDir self) refFile = (0, out, err)"
    and mt: "\<forall>d \<in> latest_per_date (captured (split_nl out)). \<exists>m. getmtime fs d = Inr m"
  shows "\<exists>res. getRecentLoads fs self refFile = Inr res
           \<and> set res = latest_per_date (captured (split_nl out))
           \<and> distinct (map lrdate_of res)
           \<and> (\<forall>d \<in> captured (split_nl out).
                 \<exists>t \<in> set res. lrdate_of t = lrdate_of d \<and> d \<le> t)
           \<and> (\<forall>i j. i < j \<and> j < length res \<longrightarrow>
                 (\<exists>mi mj. getmtime fs (res ! i) = Inr mi \<and> getmtime fs (res ! j) = Inr mj
                    \<and> mj \<le> mi))
           \<and> (\<forall>fs' self' refFile' out' err' res'.
                 run_find fs' (loadReviewDir self') refFile' = (0, out', err')
                 \<and> mset (split_nl out') = mset (split_nl out)
                 \<and> getRecentLoads fs' self' refFile' = Inr res'
                 \<longrightarrow> set res' = set res)"
proof -
  from getRecentLoads_returns[OF find mt] obtain res
    where res: "getRecentLoads fs self refFile = Inr res" ..
  note sel = getRecentLoads_selection[OF find res]
  have perm: "set res' = set res"
    if "run_find fs' (loadReviewDir self') refFile' = (0, out', err')"
      and "mset (split_nl out') = mset (split_nl out)"
      and "getRecentLoads fs' self' refFile' = Inr res'"
    for fs' self' refFile' out' err' res'
  proof -
    from that(2) have "set (split_nl out') = set (split_nl out)" by (rule mset_eq_setD)
    then have "captured (split_nl out') = captured (split_nl out)" by (simp add: captured_def)
    with getRecentLoads_selection(1)[OF that(1,3)] sel(1) show ?thesis by simp
  qed
  show ?thesis
  proof (intro exI conjI)
    show "getRecentLoads fs self refFile = Inr res" by (rule res)
    show "set res = latest_per_date (captured (split_nl out))" by (rule sel(1))
    show "distinct (map lrdate_of res)" by (rule sel(2))
    show "\<forall>d \<in> captured (split_nl out).
            \<exists>t \<in> set res. lrdate_of t = lrdate_of d \<and> d \<le> t" by (rule sel(4))
    show "\<forall>i j. i < j \<and> j < length res \<longrightarrow>
            (\<exists>mi mj. getmtime fs (res ! i) = Inr mi \<and> getmtime fs (res ! j) = Inr mj
               \<and> mj \<le> mi)" by (rule sel(3))
    show "\<forall>fs' self' refFile' out' err' res'.
            run_find fs' (loadReviewDir self') refFile' = (0, out', err')
            \<and> mset (split_nl out') = mset (split_nl out)
            \<and> getRecentLoads fs' self' refFile' = Inr res'
            \<longrightarrow> set res' = set res" using perm by blast
  qed
qed

lemma latest_per_date_subset: "latest_per_date A \<subseteq> A"
  by (auto simp: latest_per_date_def)

text \<open>
  For every name the pattern captures, the key \<^verbatim>\<open>t[-8:-1]\<close> of the code is the date key of
  the name: the three letters and four digits before the final revision letter.
\<close>

lemma not_slash:
  "is_digit c \<Longrightarrow> c \<noteq> CHR ''/''" "is_upper c \<Longrightarrow> c \<noteq> CHR ''/''"
  "is_rev c \<Longrightarrow> c \<noteq> CHR ''/''"
  by (auto simp: is_digit_def is_upper_def is_rev_def)

lemma lrd_tail_parts:
  assumes "lrd_tail u"
  shows "\<exists>b. u = CHR ''/'' # b \<and> length b = 19 \<and> CHR ''/'' \<notin> set b"
proof -
  from assms have "list_all2 (\<lambda>p x. p x) lrd_shape u" by (simp add: lrd_tail_def)
  then show ?thesis
    unfolding lrd_shape_def Let_def
    by (auto simp: list_all2_Cons1 dest: not_slash)
qed

lemma lrdre_match_shape:
  assumes "lrdre_match t = Some d"
  shows "\<exists>p b. d = p @ CHR ''/'' # b \<and> length b = 19 \<and> CHR ''/'' \<notin> set b"
proof -
  let ?P = "\<lambda>j. lrd_tail (take 20 (drop j t)) \<and> CHR 0x0A \<notin> set (take j t)"
  from assms obtain j js where f: "filter ?P (rev [0..<length t]) = j # js"
    and d: "d = take (j + 20) t"
    by (auto simp: lrdre_match_def split: list.splits)
  have "j \<in> set (filter ?P (rev [0..<length t]))" unfolding f by simp
  then have tail: "lrd_tail (take 20 (drop j t))" by simp
  from lrd_tail_parts[OF tail] obtain b
    where b: "take 20 (drop j t) = CHR ''/'' # b" "length b = 19" "CHR ''/'' \<notin> set b"
    by blast
  have "take (j + 20) t = take j t @ take 20 (drop j t)" by (rule take_add)
  with d b show ?thesis by auto
qed

lemma basename_append: "CHR ''/'' \<notin> set b \<Longrightarrow> basename (p @ CHR ''/'' # b) = b"
proof -
  assume nb: "CHR ''/'' \<notin> set b"
  have "takeWhile (\<lambda>c. c \<noteq> CHR ''/'') (rev b @ CHR ''/'' # rev p) = rev b"
    using nb by (subst takeWhile_append2) auto
  then show ?thesis by (simp add: basename_def)
qed

lemma lrdate_of_append:
  assumes "length b = 19"
  shows "lrdate_of (p @ CHR ''/'' # b) = take 7 (drop 11 b)"
proof -
  have "length (p @ CHR ''/'' # b) - 8 = length p + 12" using assms by simp
  then have "drop (length (p @ CHR ''/'' # b) - 8) (p @ CHR ''/'' # b) = drop 11 b"
    by (simp only: drop_append) simp
  moreover have "butlast (drop 11 b) = take 7 (drop 11 b)"
    using assms by (simp add: butlast_conv_take)
  ultimately show ?thesis by (simp only: lrdate_of_def)
qed

lemma date_key_captured:
  assumes "lrdre_match t = Some d"
  shows "lrdate_of d = date_key d"
proof -
  from lrdre_match_shape[OF assms] obtain p b
    where "d = p @ CHR ''/'' # b" "length b = 19" "CHR ''/'' \<notin> set b" by blast
  then have "lrdate_of d = take 7 (drop 11 b)" "basename d = b"
    by (simp_all add: lrdate_of_append basename_append)
  then show ?thesis by (simp add: date_key_def)
qed

lemma captured_full:
  assumes "\<forall>t \<in> set rawlist. \<forall>d. lrdre_match t = Some d \<longrightarrow> d = t"
  shows "captured rawlist = matching rawlist"
  using assms unfolding captured_def matching_def by (auto; force)

lemma latest_eq_greatest: "latest_per_date (captured rawlist) = greatest_per_key (captured rawlist)"
proof -
  have k: "lrdate_of d = date_key d" if "d \<in> captured rawlist" for d
    using that date_key_captured unfolding captured_def by blast
  show ?thesis
    unfolding latest_per_date_def greatest_per_key_def using k by auto
qed

text \<open>
  Claim C9, as stated: among the listed directories that match the pattern,
  \<^verbatim>\<open>getRecentLoads\<close> returns exactly one directory per embedded date. Two listed
  directories of the same year and day of the year, \<^verbatim>\<open>2024:106:A-APR1524A\<close> and
  \<^verbatim>\<open>2024:106:B-APR1624B\<close>, are both returned: the code groups by the seven characters
  before the final revision letter, not by year and day. And a listed line that only
  begins like a load name, \<^verbatim>\<open>2024:106:A-APR1524A_old\<close>, is returned cut back to
  \<^verbatim>\<open>2024:106:A-APR1524A\<close>, a name that is not in the listing.
\<close>

theorem getRecentLoads_two_per_day_counterexample:
  "getRecentLoads (fsListing listingSameDay) trackerFresh dirA = Inr [dirD, dirB]
   \<and> set [dirD, dirB] \<subseteq> set (split_nl listingSameDay)
   \<and> year_day dirD = ''2024:106'' \<and> year_day dirB = ''2024:106''
   \<and> \<not> distinct (map year_day [dirD, dirB])
   \<and> getRecentLoads (fsListing listingOld) trackerFresh dirA = Inr [dirB]
   \<and> dirB \<notin> set (split_nl listingOld)"
  by code_simp

text \<open>
  Claim C9, amended: for a listing in which every line the pattern matches is matched in
  full (nothing follows the repeated revision letter) and whose matching directories have
  readable modification times, \<^verbatim>\<open>getRecentLoads\<close> returns a list \<open>res\<close> such that
  \<^item> every element is a line of the listing, and no line the pattern does not match is an
    element (such lines are skipped without error);
  \<^item> the elements are exactly the matching lines that are the greatest name of their date
    key, where the date key is the three letters and four digits between the \<^verbatim>\<open>-\<close> and the
    final revision letter of the directory name (not the year and day of the year);
  \<^item> no two elements have the same date key, and every date key among the matching lines
    is represented by an element at least as great;
  \<^item> modification times do not increase along the list;
  \<^item> any other run whose listing has the same lines in another order selects the same
    set of directories.
\<close>

theorem getRecentLoads_one_per_date_key:
  assumes find: "run_find fs (loadReviewDir self) refFile = (0, out, err)"
    and full: "\<forall>t \<in> set (split_nl out). \<forall>d. lrdre_match t = Some d \<longrightarrow> d = t"
    and mt: "\<forall>t \<in> matching (split_nl out). \<exists>m. getmtime fs t = Inr m"
  shows "\<exists>res. getRecentLoads fs self refFile = Inr res
           \<and> set res \<subseteq> set (split_nl out)
           \<and> (\<forall>t \<in> set (split_nl out). lrdre_match t = None \<longrightarrow> t \<notin> set res)
           \<and> set res = greatest_per_key (matching (split_nl out))
           \<and> distinct (map date_key res)
           \<and> (\<forall>d \<in> matching (split_nl out).
                 \<exists>t \<in> set res. date_key t = date_key d \<and> d \<le> t)
           \<and> (\<forall>i j. i < j \<and> j < length res \<longrightarrow>
                 (\<exists>mi mj. getmtime fs (res ! i) = Inr mi \<and> getmtime fs (res ! j) = Inr mj
                    \<and> mj \<le> mi))
           \<and> (\<forall>fs' self' refFile' out' err' res'.
                 run_find fs' (loadReviewDir self') refFile' = (0, out', err')
                 \<and> mset (split_nl out') = mset (split_nl out)
                 \<and> getRecentLoads fs' self' refFile' = Inr res'
                 \<longrightarrow> set res' = set res)"
proof -
  let ?raw = "split_nl out"
  have cm: "captured ?raw = matching ?raw" using full by (rule captured_full)
  have mt': "\<forall>d \<in> latest_per_date (captured ?raw). \<exists>m. getmtime fs d = Inr m"
    using mt latest_per_date_subset[of "captured ?raw"] unfolding cm by blast
  from getRecentLoads_latest_per_date[OF find mt'] obtain res
    where res: "getRecentLoads fs self refFile = Inr res"
      and sel: "set res = latest_per_date (captured ?raw)"
      and dis: "distinct (map lrdate_of res)"
      and cov: "\<forall>d \<in> captured ?raw. \<exists>t \<in> set res. lrdate_of t = lrdate_of d \<and> d \<le> t"
      and desc: "\<forall>i j. i < j \<and> j < length res \<longrightarrow>
                 (\<exists>mi mj. getmtime fs (res ! i) = Inr mi \<and> getmtime fs (res ! j) = Inr mj
                    \<and> mj \<le> mi)"
      and perm: "\<forall>fs' self' refFile' out' err' res'.
                 run_find fs' (loadReviewDir self') refFile' = (0, out', err')
                 \<and> mset (split_nl out') = mset (split_nl out)
                 \<and> getRecentLoads fs' self' refFile' = Inr res'
                 \<longrightarrow> set res' = set res"
    by (elim exE conjE)
  have sub: "set res \<subseteq> captured ?raw"
    unfolding sel by (rule latest_per_date_subset)
  have key: "lrdate_of d = date_key d" if "d \<in> captured ?raw" for d
    using that date_key_captured unfolding captured_def by blast
  have keys: "map lrdate_of res = map date_key res"
    using sub key by (intro map_cong) auto
  have c1: "set res \<subseteq> set ?raw"
    using sub unfolding cm matching_def by blast
  have c2: "\<forall>t \<in> set ?raw. lrdre_match t = None \<longrightarrow> t \<notin> set res"
    using sub unfolding cm matching_def by blast
  have c3: "set res = greatest_per_key (matching ?raw)"
    using sel latest_eq_greatest[of ?raw] unfolding cm by simp
  have c4: "distinct (map date_key res)" using dis unfolding keys .
  have c5: "\<forall>d \<in> matching ?raw. \<exists>t \<in> set res. date_key t = date_key d \<and> d \<le> t"
  proof
    fix d assume d: "d \<in> matching ?raw"
    then have dc: "d \<in> captured ?raw" unfolding cm .
    with cov obtain t where t: "t \<in> set res" "lrdate_of t = lrdate_of d" "d \<le> t" by blast
    from t(1) sub have "t \<in> captured ?raw" by blast
    with t(2) key dc have "date_key t = date_key d" by simp
    with t show "\<exists>t \<in> set res. date_key t = date_key d \<and> d \<le> t" by blast
  qed
  show ?thesis
  proof (intro exI conjI)
    show "getRecentLoads fs self refFile = Inr res" by (rule res)
    show "set res \<subseteq> set ?raw" by (rule c1)
    show "\<forall>t \<in> set ?raw. lrdre_match t = None \<longrightarrow> t \<notin> set res" by (rule c2)
    show "set res = greatest_per_key (matching ?raw)" by (rule c3)
    show "distinct (map date_key res)" by (rule c4)
    show "\<forall>d \<in> matching ?raw. \<exists>t \<in> set res. date_key t = date_key d \<and> d \<le> t" by (rule c5)
    show "\<forall>i j. i < j \<and> j < length res \<longrightarrow>
            (\<exists>mi mj. getmtime fs (res ! i) = Inr mi \<and> getmtime fs (res ! j) = Inr mj
               \<and> mj \<le> mi)" by (rule desc)
    show "\<forall>fs' self' refFile' out' err' res'.
            run_find fs' (loadReviewDir self') refFile' = (0, out', err')
            \<and> mset (split_nl out') = mset (split_nl out)
            \<and> getRecentLoads fs' self' refFile' = Inr res'
            \<longrightarrow> set res' = set res" by (rule perm)
  qed
qed

theorem getRecentLoads_one_per_date_key_witness:
  "run_find (fsListing listing) (loadReviewDir trackerFresh) dirA = (0, listing, [])
   \<and> getRecentLoads (fsListing listing) trackerFresh dirA = Inr [dirC, dirB2]
   \<and> greatest_per_key (matching (split_nl listing)) = set [dirC, dirB2]
   \<and> set [dirC, dirB2] \<subseteq> set (split_nl listing)"
proof -
  have find: "run_find (fsListing listing) (loadReviewDir trackerFresh) dirA = (0, listing, [])"
    by code_simp
  have "list_all (\<lambda>t. case lrdre_match t of None \<Rightarrow> True | Some d \<Rightarrow> d = t) (split_nl listing)"
    by code_simp
  then have full: "\<forall>t \<in> set (split_nl listing). \<forall>d. lrdre_match t = Some d \<longrightarrow> d = t"
    unfolding list_all_iff by (auto split: option.splits)
  have "list_all (\<lambda>t. lrdre_match t = None
                      \<or> (case getmtime (fsListing listing) t of Inl e \<Rightarrow> False | Inr m \<Rightarrow> True))
          (split_nl listing)"
    by code_simp
  then have la: "\<And>t. t \<in> set (split_nl listing) \<Longrightarrow> lrdre_match t = None
                      \<or> (case getmtime (fsListing listing) t of Inl e \<Rightarrow> False | Inr m \<Rightarrow> True)"
    unfolding list_all_iff by blast
  have mt: "\<forall>t \<in> matching (split_nl listing). \<exists>m. getmtime (fsListing listing) t = Inr m"
  proof
    fix t
    assume "t \<in> matching (split_nl listing)"
    then have "t \<in> set (split_nl listing)" "lrdre_match t \<noteq> None"
      by (simp_all add: matching_def)
    with la[of t] show "\<exists>m. getmtime (fsListing listing) t = Inr m"
      by (cases "getmtime (fsListing listing) t") auto
  qed
  from getRecentLoads_one_per_date_key[OF find full mt] obtain res
    where res: "getRecentLoads (fsListing listing) trackerFresh dirA = Inr res"
      and sub: "set res \<subseteq> set (split_nl listing)"
      and sel: "set res = greatest_per_key (matching (split_nl listing))"
    by (elim exE conjE)
  have ev: "getRecentLoads (fsListing listing) trackerFresh dirA = Inr [dirC, dirB2]"
    by code_simp
  from res ev have "Inr res = (Inr [dirC, dirB2] :: error + string list)"
    by (rule trans[OF sym])
  then have r: "res = [dirC, dirB2]" by (simp only: sum.inject)
  from sel have s: "greatest_per_key (matching (split_nl listing)) = set [dirC, dirB2]"
    unfolding r by (rule sym)
  from sub have u: "set [dirC, dirB2] \<subseteq> set (split_nl listing)" unfolding r .
  from find ev s u show ?thesis by (intro conjI)
qed

end
